theory Spec2Isabelle
  imports Main "HOL-Library.Word" "HOL-Library.List_Lexorder"
begin

unbundle bit_operations_syntax

section \<open>Wire scanner\<close>

text \<open>
  The validator of \<^verbatim>\<open>x/tx/decode/unknown.go\<close> partitions its buffer with the functions
  of \<^verbatim>\<open>google.golang.org/protobuf/encoding/protowire\<close>, the Wire Scanner of the spec.
  The package is a library of its own and not under src/; its functions are modelled here
  as the spec and the package's documentation describe them. Buffers are lists of bytes, a
  varint is a 64-bit word, a field number (\<^verbatim>\<open>protowire.Number\<close>, an int32 that is never
  negative once a tag has been accepted) is an \<open>int\<close>, and a wire type
  (\<^verbatim>\<open>protowire.Type\<close>, the low three bits of the tag) is a \<open>nat\<close>.
\<close>

type_synonym byte = "8 word"
type_synonym bytes = "byte list"
type_synonym Number = int
type_synonym WireType = nat

text \<open>The negative lengths by which protowire reports a parse error.\<close>

datatype ParseError =
    errCodeTruncated
  | errCodeFieldNumber
  | errCodeOverflow
  | errCodeReserved
  | errCodeEndGroup
  | errCodeRecursionDepth

definition VarintType :: WireType where "VarintType = 0"
definition Fixed64Type :: WireType where "Fixed64Type = 1"
definition BytesType :: WireType where "BytesType = 2"
definition StartGroupType :: WireType where "StartGroupType = 3"
definition EndGroupType :: WireType where "EndGroupType = 4"
definition Fixed32Type :: WireType where "Fixed32Type = 5"

definition MinValidNumber :: Number where "MinValidNumber = 1"
definition MaxValidNumber :: Number where "MaxValidNumber = 2 ^ 29 - 1"
definition MaxInt32 :: "64 word" where "MaxInt32 = 2 ^ 31 - 1"
definition DefaultRecursionLimit :: int where "DefaultRecursionLimit = 10000"

text \<open>
  Modelled from the spec: \<^verbatim>\<open>protowire.ConsumeVarint\<close> (the Wire Scanner's varint reader,
  a library function that is not under src/). Bytes are read little-endian, seven bits each,
  while the continuation bit \<open>0x80\<close> is set; the buffer ending first is
  \<open>errCodeTruncated\<close>, and a tenth byte above 1 is \<open>errCodeOverflow\<close>. The argument
  \<open>i\<close> is the index of the byte being read. The result is the value and the number of
  bytes read.
\<close>

fun ConsumeVarint_at :: "nat \<Rightarrow> bytes \<Rightarrow> ParseError + (64 word \<times> nat)" where
  "ConsumeVarint_at i [] = Inl errCodeTruncated"
| "ConsumeVarint_at i (y # ys) =
     (if i = 9 then
        (if y < 2 then Inr (push_bit 63 (ucast y), 10) else Inl errCodeOverflow)
      else if y < 0x80 then Inr (push_bit (7 * i) (ucast y), i + 1)
      else
        (case ConsumeVarint_at (i + 1) ys of
           Inl e \<Rightarrow> Inl e
         | Inr (v, n) \<Rightarrow> Inr (push_bit (7 * i) (ucast (y AND 0x7f)) + v, n)))"

definition ConsumeVarint :: "bytes \<Rightarrow> ParseError + (64 word \<times> nat)" where
  "ConsumeVarint b = ConsumeVarint_at 0 b"

text \<open>
  Modelled from the spec: \<^verbatim>\<open>protowire.DecodeTag\<close> and \<^verbatim>\<open>protowire.ConsumeTag\<close> (not
  under src/). The tag is a varint; the field number is the tag shifted right by three (\<open>-1\<close>
  when it does not fit an int32), the wire type its low three bits. A number below
  \<open>MinValidNumber\<close> is \<open>errCodeFieldNumber\<close>. The result is the number, the wire type and
  the length of the tag.
\<close>

definition DecodeTag :: "64 word \<Rightarrow> Number \<times> WireType" where
  "DecodeTag x =
     (if drop_bit 3 x > MaxInt32 then (-1, 0)
      else (uint (drop_bit 3 x), unat (x AND 7)))"

definition ConsumeTag :: "bytes \<Rightarrow> ParseError + (Number \<times> WireType \<times> nat)" where
  "ConsumeTag b =
     (case ConsumeVarint b of
        Inl e \<Rightarrow> Inl e
      | Inr (v, n) \<Rightarrow>
          (case DecodeTag v of (num, typ) \<Rightarrow>
             if num < MinValidNumber then Inl errCodeFieldNumber
             else Inr (num, typ, n)))"

text \<open>
  Modelled from the spec: \<^verbatim>\<open>protowire.ConsumeFixed32\<close>, \<^verbatim>\<open>ConsumeFixed64\<close> and
  \<^verbatim>\<open>ConsumeBytes\<close> (not under src/), reduced to what the validator reads: the length of
  the value, and for a length-delimited value its payload.
\<close>

definition ConsumeFixed32 :: "bytes \<Rightarrow> ParseError + nat" where
  "ConsumeFixed32 b = (if length b < 4 then Inl errCodeTruncated else Inr 4)"

definition ConsumeFixed64 :: "bytes \<Rightarrow> ParseError + nat" where
  "ConsumeFixed64 b = (if length b < 8 then Inl errCodeTruncated else Inr 8)"

definition ConsumeBytes :: "bytes \<Rightarrow> ParseError + (bytes \<times> nat)" where
  "ConsumeBytes b =
     (case ConsumeVarint b of
        Inl e \<Rightarrow> Inl e
      | Inr (m, n) \<Rightarrow>
          if unat m > length (drop n b) then Inl errCodeTruncated
          else Inr (take (unat m) (drop n b), n + unat m))"

lemma ConsumeVarint_at_bounds:
  "ConsumeVarint_at i b = Inr (v, n) \<Longrightarrow> i < n \<and> n \<le> i + length b"
proof (induction i b arbitrary: v n rule: ConsumeVarint_at.induct)
  case (1 i)
  then show ?case by simp
next
  case (2 i y ys)
  show ?case
  proof (cases "i = 9")
    case True
    with "2.prems" show ?thesis by (auto split: if_splits)
  next
    case ni: False
    show ?thesis
    proof (cases "y < 0x80")
      case True
      with ni "2.prems" show ?thesis by auto
    next
      case False
      with ni "2.prems" obtain v' where r: "ConsumeVarint_at (i + 1) ys = Inr (v', n)"
        by (auto split: sum.splits)
      from "2.IH" [OF ni False r] show ?thesis by simp
    qed
  qed
qed

lemma ConsumeVarint_bounds:
  "ConsumeVarint b = Inr (v, n) \<Longrightarrow> 0 < n \<and> n \<le> length b"
  using ConsumeVarint_at_bounds [of 0 b v n] by (simp add: ConsumeVarint_def)

lemma ConsumeTag_bounds:
  "ConsumeTag b = Inr (num, typ, m) \<Longrightarrow> 0 < m \<and> m \<le> length b"
  by (auto simp: ConsumeTag_def split: sum.splits prod.splits if_splits
      dest: ConsumeVarint_bounds)

text \<open>
  Modelled from the spec: \<^verbatim>\<open>protowire.ConsumeFieldValue\<close> (not under src/), the Wire
  Scanner's length computation: the length of a varint, four or eight bytes for the fixed
  widths, the length prefix and the payload of a length-delimited value. The validator
  leaves groups to this function, which reads a start-group value up to the matching
  end-group tag and skips the fields inside it by itself, at most
  \<open>DefaultRecursionLimit\<close> groups deep; an end-group tag with no group open and the wire
  types 6 and 7 are errors. \<open>consumeGroup\<close> is the loop of the start-group case; \<open>n0\<close>
  is the length of the buffer when the loop was entered.
\<close>

function consumeFieldValueD :: "Number \<Rightarrow> WireType \<Rightarrow> bytes \<Rightarrow> int \<Rightarrow> ParseError + nat"
  and consumeGroup :: "Number \<Rightarrow> nat \<Rightarrow> bytes \<Rightarrow> int \<Rightarrow> ParseError + nat"
where
  "consumeFieldValueD num typ b depth =
     (if typ = VarintType then
        (case ConsumeVarint b of Inl e \<Rightarrow> Inl e | Inr (v, n) \<Rightarrow> Inr n)
      else if typ = Fixed32Type then ConsumeFixed32 b
      else if typ = Fixed64Type then ConsumeFixed64 b
      else if typ = BytesType then
        (case ConsumeBytes b of Inl e \<Rightarrow> Inl e | Inr (v, n) \<Rightarrow> Inr n)
      else if typ = StartGroupType then
        (if depth < 0 then Inl errCodeRecursionDepth
         else consumeGroup num (length b) b depth)
      else if typ = EndGroupType then Inl errCodeEndGroup
      else Inl errCodeReserved)"
| "consumeGroup num n0 b depth =
     (case ConsumeTag b of
        Inl e \<Rightarrow> Inl e
      | Inr (num2, typ2, n) \<Rightarrow>
          if typ2 = EndGroupType then
            (if num \<noteq> num2 then Inl errCodeEndGroup
             else Inr (n0 - length (drop n b)))
          else
            (case consumeFieldValueD num2 typ2 (drop n b) (depth - 1) of
               Inl e \<Rightarrow> Inl e
             | Inr n' \<Rightarrow> consumeGroup num n0 (drop n' (drop n b)) depth))"
  by pat_completeness auto
termination
proof (relation "measure (\<lambda>x. case x of
          Inl (num, typ, b, depth) \<Rightarrow> 2 * length b + 1
        | Inr (num, n0, b, depth) \<Rightarrow> 2 * length b)", goal_cases)
  case 1
  show ?case by simp
next
  case 2
  then show ?case by simp
next
  case (3 num n0 b depth x2 num2 y typ2 n)
  then have "ConsumeTag b = Inr (num2, typ2, n)" by auto
  from ConsumeTag_bounds [OF this] show ?case by auto
next
  case (4 num n0 b depth x2 num2 y typ2 n n')
  then have "ConsumeTag b = Inr (num2, typ2, n)" by auto
  from ConsumeTag_bounds [OF this] show ?case by auto
qed

definition ConsumeFieldValue :: "Number \<Rightarrow> WireType \<Rightarrow> bytes \<Rightarrow> ParseError + nat" where
  "ConsumeFieldValue num typ b = consumeFieldValueD num typ b DefaultRecursionLimit"

section \<open>Descriptors, the resolver and errors\<close>

text \<open>
  \<^verbatim>\<open>protoreflect.Kind\<close>, and the two descriptors the validator reads. A message type may
  mention itself in one of its own fields, so the descriptors are codatatypes: a descriptor
  is the unfolding of the descriptor graph. \<open>field_Message\<close> is
  \<^verbatim>\<open>FieldDescriptor.Message()\<close>, \<open>None\<close> where Go returns nil.
\<close>

datatype Kind =
    BoolKind | EnumKind | Int32Kind | Sint32Kind | Uint32Kind | Int64Kind | Sint64Kind
  | Uint64Kind | Sfixed32Kind | Fixed32Kind | FloatKind | Sfixed64Kind | Fixed64Kind
  | DoubleKind | StringKind | BytesKind | MessageKind | GroupKind

codatatype MessageDescriptor =
    MessageDescriptor (msg_FullName: string) (msg_Fields: "FieldDescriptor list")
and FieldDescriptor =
    FieldDescriptor (field_Number: Number) (field_FullName: string) (field_Kind: Kind)
      (field_Message: "MessageDescriptor option")

text \<open>
  \<^verbatim>\<open>protoreflect.Descriptor\<close>, what \<^verbatim>\<open>FindDescriptorByName\<close> returns: a message
  descriptor, or the descriptor of something else that has a full name (an enum, a
  service).
\<close>

datatype Descriptor = MessageDesc MessageDescriptor | OtherDesc string

text \<open>
  The errors of the validator and of the sign mode handler, one constructor for each place
  that returns one. A Go panic ends every caller up to the entry point as a returned error
  does, so the panics are error values too: in the validator a slice bound at line 96 and
  the unchecked type assertion at line 118, in the sign mode handler the dereference of a
  nil \<^verbatim>\<open>txData.Body\<close> or \<^verbatim>\<open>txData.AuthInfo\<close>.
\<close>

datatype UnmarshalError = errDecode | errInvalidUTF8

datatype error =
    ErrInvalidLength
  | ErrUnknownField string Number WireType
  | ErrConsumeFieldValue Number WireType ParseError
  | ErrInvalidWireType WireType string
  | ErrUnmarshal UnmarshalError
  | ErrResolver string
  | PanicSliceBounds
  | PanicInterfaceConversion
  | PanicNilDereference
  | ErrExtensionOptions
  | ErrEmptyAddress
  | ErrEmptyTipper
  | ErrNilFee
  | ErrEncoder string
  | ErrJSON string

text \<open>
  \<^verbatim>\<open>protodesc.Resolver.FindDescriptorByName\<close>: the descriptor with that full name, or
  the resolver's own error, kept as its message.
\<close>

type_synonym Resolver = "string \<Rightarrow> string + Descriptor"

definition bit11NonCritical :: Number where
  "bit11NonCritical = push_bit 10 1"

definition anyFullName :: string where
  "anyFullName = ''google.protobuf.Any''"

definition anyDesc :: MessageDescriptor where
  "anyDesc = MessageDescriptor anyFullName
     [FieldDescriptor 1 ''google.protobuf.Any.type_url'' StringKind None,
      FieldDescriptor 2 ''google.protobuf.Any.value'' BytesKind None]"

text \<open>\<^verbatim>\<open>FieldDescriptors.ByNumber\<close>: the field with that number, or nil.\<close>

definition ByNumber :: "FieldDescriptor list \<Rightarrow> Number \<Rightarrow> FieldDescriptor option" where
  "ByNumber fields n = find (\<lambda>f. field_Number f = n) fields"

fun isWireTypeAssignable :: "WireType \<Rightarrow> Kind \<Rightarrow> bool" where
  "isWireTypeAssignable wt Int32Kind = (wt = VarintType)"
| "isWireTypeAssignable wt Int64Kind = (wt = VarintType)"
| "isWireTypeAssignable wt Sint32Kind = (wt = VarintType)"
| "isWireTypeAssignable wt Sint64Kind = (wt = VarintType)"
| "isWireTypeAssignable wt Uint32Kind = (wt = VarintType)"
| "isWireTypeAssignable wt Uint64Kind = (wt = VarintType)"
| "isWireTypeAssignable wt BoolKind = (wt = VarintType)"
| "isWireTypeAssignable wt EnumKind = (wt = VarintType)"
| "isWireTypeAssignable wt Fixed64Kind = (wt = Fixed64Type)"
| "isWireTypeAssignable wt Sfixed64Kind = (wt = Fixed64Type)"
| "isWireTypeAssignable wt DoubleKind = (wt = Fixed64Type)"
| "isWireTypeAssignable wt StringKind = (wt = BytesType)"
| "isWireTypeAssignable wt BytesKind = (wt = BytesType)"
| "isWireTypeAssignable wt MessageKind = (wt = BytesType)"
| "isWireTypeAssignable wt GroupKind = (wt = BytesType)"
| "isWireTypeAssignable wt Fixed32Kind = (wt = Fixed32Type)"
| "isWireTypeAssignable wt Sfixed32Kind = (wt = Fixed32Type)"
| "isWireTypeAssignable wt FloatKind = (wt = Fixed32Type)"

text \<open>
  Modelled from the spec: \<^verbatim>\<open>MessageNameFromTypeURL\<close> (of this repository, not under
  src/): "the fully qualified name is the URL's path component after the last /".
\<close>

definition MessageNameFromTypeURL :: "string \<Rightarrow> string" where
  "MessageNameFromTypeURL url = rev (takeWhile (\<lambda>c. c \<noteq> CHR ''/'') (rev url))"

subsection \<open>Decoding an envelope\<close>

text \<open>
  Modelled from the spec: \<^verbatim>\<open>proto.Unmarshal\<close> into an \<^verbatim>\<open>anypb.Any\<close> (not under src/),
  which "decodes just enough to extract the type-URL and inner payload". It scans the fields
  of the envelope: field 1 as a length-delimited value is the type URL (a proto3 string,
  which must be valid UTF-8), field 2 as a length-delimited value is the payload, the last
  occurrence of either wins, and every other field is skipped by the Wire Scanner. A field
  number out of range, a stray end-group tag or a value that does not parse is a decoding
  error.
\<close>

record Any =
  TypeUrl :: string
  Value :: bytes

text \<open>A Go string holds bytes; a byte is read as the character with that code.\<close>

definition string_of_bytes :: "bytes \<Rightarrow> string" where
  "string_of_bytes v = map (\<lambda>b. char_of (unat b)) v"

definition cont :: "byte \<Rightarrow> bool" where
  "cont b = (0x80 \<le> b \<and> b \<le> 0xBF)"

fun utf8_Valid :: "bytes \<Rightarrow> bool" where
  "utf8_Valid [] = True"
| "utf8_Valid (b0 # r) =
     (if b0 < 0x80 then utf8_Valid r
      else if 0xC2 \<le> b0 \<and> b0 \<le> 0xDF then
        (case r of b1 # r1 \<Rightarrow> cont b1 \<and> utf8_Valid r1 | _ \<Rightarrow> False)
      else if 0xE0 \<le> b0 \<and> b0 \<le> 0xEF then
        (case r of
           b1 # b2 # r2 \<Rightarrow>
             (if b0 = 0xE0 then 0xA0 \<le> b1 \<and> b1 \<le> 0xBF
              else if b0 = 0xED then 0x80 \<le> b1 \<and> b1 \<le> 0x9F
              else cont b1) \<and> cont b2 \<and> utf8_Valid r2
         | _ \<Rightarrow> False)
      else if 0xF0 \<le> b0 \<and> b0 \<le> 0xF4 then
        (case r of
           b1 # b2 # b3 # r3 \<Rightarrow>
             (if b0 = 0xF0 then 0x90 \<le> b1 \<and> b1 \<le> 0xBF
              else if b0 = 0xF4 then 0x80 \<le> b1 \<and> b1 \<le> 0x8F
              else cont b1) \<and> cont b2 \<and> cont b3 \<and> utf8_Valid r3
         | _ \<Rightarrow> False)
      else False)"

function unmarshal_Any :: "Any \<Rightarrow> bytes \<Rightarrow> UnmarshalError + Any" where
  "unmarshal_Any a b =
     (if b = [] then Inr a
      else case ConsumeVarint b of
        Inl e \<Rightarrow> Inl errDecode
      | Inr (tag, n0) \<Rightarrow>
          let num = uint (drop_bit 3 tag); wtyp = unat (tag AND 7) in
          if num < MinValidNumber \<or> num > MaxValidNumber then Inl errDecode
          else if wtyp = EndGroupType then Inl errDecode
          else if num = 1 \<and> wtyp = BytesType then
            (case ConsumeBytes (drop n0 b) of
               Inl e \<Rightarrow> Inl errDecode
             | Inr (v, n) \<Rightarrow>
                 if \<not> utf8_Valid v then Inl errInvalidUTF8
                 else unmarshal_Any (a\<lparr>TypeUrl := string_of_bytes v\<rparr>) (drop n (drop n0 b)))
          else if num = 2 \<and> wtyp = BytesType then
            (case ConsumeBytes (drop n0 b) of
               Inl e \<Rightarrow> Inl errDecode
             | Inr (v, n) \<Rightarrow> unmarshal_Any (a\<lparr>Value := v\<rparr>) (drop n (drop n0 b)))
          else
            (case ConsumeFieldValue num wtyp (drop n0 b) of
               Inl e \<Rightarrow> Inl errDecode
             | Inr n \<Rightarrow> unmarshal_Any a (drop n (drop n0 b))))"
  by pat_completeness auto
termination
proof (relation "measure (\<lambda>(a, b). length b)", goal_cases)
  case 1
  show ?case by simp
next
  case (2 a b x2 tag n0 num wtyp x2a v n)
  then have "ConsumeVarint b = Inr (tag, n0)" by auto
  from ConsumeVarint_bounds [OF this] show ?case by auto
next
  case (3 a b x2 tag n0 num wtyp x2a v n)
  then have "ConsumeVarint b = Inr (tag, n0)" by auto
  from ConsumeVarint_bounds [OF this] show ?case by auto
next
  case (4 a b x2 tag n0 num wtyp n)
  then have "ConsumeVarint b = Inr (tag, n0)" by auto
  from ConsumeVarint_bounds [OF this] show ?case by auto
qed

definition Unmarshal_Any :: "bytes \<Rightarrow> UnmarshalError + Any" where
  "Unmarshal_Any b = unmarshal_Any \<lparr>TypeUrl = [], Value = []\<rparr> b"

lemma ConsumeBytes_payload:
  "ConsumeBytes b = Inr (v, n) \<Longrightarrow> length v \<le> length b \<and> n \<le> length b"
  by (auto simp: ConsumeBytes_def split: sum.splits prod.splits if_splits
      dest: ConsumeVarint_bounds)

lemma unmarshal_Any_Value:
  "unmarshal_Any a0 b = Inr a \<Longrightarrow> length (Value a0) \<le> k \<Longrightarrow> length b \<le> k
     \<Longrightarrow> length (Value a) \<le> k"
proof (induction a0 b arbitrary: a rule: unmarshal_Any.induct)
  case (1 a0 b)
  show ?case
  proof (cases "b = []")
    case True
    with "1.prems" show ?thesis by simp
  next
    case ne: False
    then obtain tag n0 where cv: "ConsumeVarint b = Inr (tag, n0)"
      using "1.prems"(1) by (auto split: sum.splits)
    define num where "num = uint (drop_bit 3 tag)"
    define wtyp where "wtyp = unat (tag AND 7)"
    have rng: "\<not> (num < MinValidNumber \<or> num > MaxValidNumber)" and neg: "wtyp \<noteq> EndGroupType"
      using "1.prems"(1) ne cv by (auto simp: num_def wtyp_def Let_def split: if_splits)
    consider (url) "num = 1 \<and> wtyp = BytesType"
      | (val) "\<not> (num = 1 \<and> wtyp = BytesType)" "num = 2 \<and> wtyp = BytesType"
      | (other) "\<not> (num = 1 \<and> wtyp = BytesType)" "\<not> (num = 2 \<and> wtyp = BytesType)"
      by blast
    then show ?thesis
    proof cases
      case url
      with "1.prems"(1) ne cv rng neg obtain v n where
        cb: "ConsumeBytes (drop n0 b) = Inr (v, n)" and ok: "utf8_Valid v" and
        r: "unmarshal_Any (a0\<lparr>TypeUrl := string_of_bytes v\<rparr>) (drop n (drop n0 b)) = Inr a"
        by (auto simp: num_def wtyp_def Let_def split: if_splits sum.splits)
      have "length (drop n (drop n0 b)) \<le> k" using "1.prems"(3) by simp
      moreover have "\<not> \<not> utf8_Valid v" using ok by simp
      note "1.IH"(1) [OF ne cv refl num_def wtyp_def rng neg url cb refl this r]
      ultimately show ?thesis using "1.prems"(2) by simp
    next
      case val
      with "1.prems"(1) ne cv rng neg obtain v n where
        cb: "ConsumeBytes (drop n0 b) = Inr (v, n)" and
        r: "unmarshal_Any (a0\<lparr>Value := v\<rparr>) (drop n (drop n0 b)) = Inr a"
        by (auto simp: num_def wtyp_def Let_def split: if_splits sum.splits)
      have l: "length (drop n (drop n0 b)) \<le> k" using "1.prems"(3) by simp
      have "length v \<le> k" using ConsumeBytes_payload [OF cb] "1.prems"(3) by auto
      with "1.IH"(2) [OF ne cv refl num_def wtyp_def rng neg val cb refl r] l
      show ?thesis by simp
    next
      case other
      with "1.prems"(1) ne cv rng neg obtain n where
        cf: "ConsumeFieldValue num wtyp (drop n0 b) = Inr n" and
        r: "unmarshal_Any a0 (drop n (drop n0 b)) = Inr a"
        by (auto simp: num_def wtyp_def Let_def split: if_splits sum.splits)
      have l: "length (drop n (drop n0 b)) \<le> k" using "1.prems"(3) by simp
      with "1.IH"(3) [OF ne cv refl num_def wtyp_def rng neg other cf r]
        "1.prems"(2) show ?thesis by simp
    qed
  qed
qed

lemma Unmarshal_Any_Value: "Unmarshal_Any b = Inr a \<Longrightarrow> length (Value a) \<le> length b"
  using unmarshal_Any_Value [of "\<lparr>TypeUrl = [], Value = []\<rparr>" b a "length b"]
  by (simp add: Unmarshal_Any_def)

section \<open>The unknown-field validator\<close>

text \<open>
  \<^verbatim>\<open>RejectUnknownFields\<close> of \<^verbatim>\<open>x/tx/decode/unknown.go\<close>. The result is the pair the Go
  function returns: the flag \<open>hasUnknownNonCriticals\<close> and the error (\<open>None\<close> for nil).
  \<open>RejectUnknownFields_loop\<close> is the \<^verbatim>\<open>for len(bz) > 0\<close> loop of lines 38 to 127; its
  last argument is the flag accumulated so far, and each branch that the source ends with
  \<^verbatim>\<open>continue\<close> or by reaching the end of the loop body is a call of the loop on the
  remaining buffer. The two \<^verbatim>\<open>fmt.Printf\<close> calls only print and are left out.
\<close>

function RejectUnknownFields ::
    "bytes \<Rightarrow> MessageDescriptor \<Rightarrow> bool \<Rightarrow> Resolver \<Rightarrow> bool \<times> error option"
  and RejectUnknownFields_loop ::
    "bytes \<Rightarrow> MessageDescriptor \<Rightarrow> bool \<Rightarrow> Resolver \<Rightarrow> bool \<Rightarrow> bool \<times> error option"
where
  "RejectUnknownFields bz desc allowUnknownNonCriticals resolver =
     (if length bz = 0 then (False, None)
      else RejectUnknownFields_loop bz desc allowUnknownNonCriticals resolver False)"
| "RejectUnknownFields_loop bz desc allowUnknownNonCriticals resolver hasUnknownNonCriticals =
     (if \<not> length bz > 0 then (hasUnknownNonCriticals, None)
      else case ConsumeTag bz of
        Inl e \<Rightarrow> (hasUnknownNonCriticals, Some ErrInvalidLength)
      | Inr (tagNum, wireType, m) \<Rightarrow>
          let fieldDesc = ByNumber (msg_Fields desc) tagNum;
              isCriticalField = (tagNum AND bit11NonCritical = 0);
              has1 = (if fieldDesc = None \<and> \<not> isCriticalField then True
                      else hasUnknownNonCriticals)
          in
          if fieldDesc = None \<and> (isCriticalField \<or> \<not> allowUnknownNonCriticals) then
            (has1, Some (ErrUnknownField (msg_FullName desc) tagNum wireType))
          else
            (case ConsumeFieldValue tagNum wireType (drop m bz) of
               Inl pe \<Rightarrow> (has1, Some (ErrConsumeFieldValue tagNum wireType pe))
             | Inr n \<Rightarrow>
                 let fieldBytes = take n (drop m bz); bz' = drop n (drop m bz) in
                 (case fieldDesc of
                    None \<Rightarrow>
                      RejectUnknownFields_loop bz' desc allowUnknownNonCriticals resolver has1
                  | Some fd \<Rightarrow>
                      if \<not> isWireTypeAssignable wireType (field_Kind fd) then
                        (has1, Some (ErrInvalidWireType wireType (field_FullName fd)))
                      else
                        (case field_Message fd of
                           None \<Rightarrow>
                             RejectUnknownFields_loop bz' desc allowUnknownNonCriticals
                               resolver has1
                         | Some fieldMessage \<Rightarrow>
                             (case ConsumeVarint fieldBytes of
                                Inl e \<Rightarrow> (has1, Some PanicSliceBounds)
                              | Inr (v, o') \<Rightarrow>
                                  let fieldBytes1 = drop o' fieldBytes in
                                  if msg_FullName fieldMessage = anyFullName then
                                    (case RejectUnknownFields fieldBytes1 anyDesc
                                            allowUnknownNonCriticals resolver of
                                       (child, err) \<Rightarrow>
                                         let has2 = (has1 \<or> child) in
                                         if err \<noteq> None then (has2, err)
                                         else
                                           (case Unmarshal_Any fieldBytes1 of
                                              Inl e \<Rightarrow> (has2, Some (ErrUnmarshal e))
                                            | Inr a \<Rightarrow>
                                                (case resolver (MessageNameFromTypeURL (TypeUrl a)) of
                                                   Inl e \<Rightarrow> (has2, Some (ErrResolver e))
                                                 | Inr (OtherDesc nm) \<Rightarrow>
                                                     (has2, Some PanicInterfaceConversion)
                                                 | Inr (MessageDesc msgDesc) \<Rightarrow>
                                                     (case RejectUnknownFields (Value a) msgDesc
                                                             allowUnknownNonCriticals resolver of
                                                        (child2, err2) \<Rightarrow>
                                                          let has3 = (has2 \<or> child2) in
                                                          if err2 \<noteq> None then (has3, err2)
                                                          else RejectUnknownFields_loop bz' desc
                                                                 allowUnknownNonCriticals resolver has3))))
                                  else
                                    (case RejectUnknownFields fieldBytes1 fieldMessage
                                            allowUnknownNonCriticals resolver of
                                       (child, err) \<Rightarrow>
                                         let has2 = (has1 \<or> child) in
                                         if err \<noteq> None then (has2, err)
                                         else RejectUnknownFields_loop bz' desc
                                                allowUnknownNonCriticals resolver has2))))))"
  by pat_completeness auto

termination
  by (relation "measure (\<lambda>x. case x of
          Inl (bz, desc, allow, resolver) \<Rightarrow> 2 * length bz + 1
        | Inr (bz, desc, allow, resolver, has) \<Rightarrow> 2 * length bz)")
     (auto dest!: ConsumeTag_bounds Unmarshal_Any_Value)

declare RejectUnknownFields.simps [simp del]
declare RejectUnknownFields_loop.simps [simp del]

text \<open>\<^verbatim>\<open>RejectUnknownFieldsStrict\<close>: the strict variant keeps the error only.\<close>

definition RejectUnknownFieldsStrict ::
    "bytes \<Rightarrow> MessageDescriptor \<Rightarrow> Resolver \<Rightarrow> error option" where
  "RejectUnknownFieldsStrict bz msg resolver = snd (RejectUnknownFields bz msg False resolver)"

section \<open>The sign mode handler\<close>

text \<open>
  \<^verbatim>\<open>GetSignBytes\<close> of \<^verbatim>\<open>x/tx/signing/aminojson/aminojson.go\<close>. The transaction
  structures are generated code that is not under src/; the records hold the fields that
  \<^verbatim>\<open>GetSignBytes\<close> reads. A pointer that may be nil is an option. The handler holds its
  resolver and its encoder (\<^verbatim>\<open>h.encoder.Marshal\<close>, which \<^verbatim>\<open>GetSignBytes\<close> calls on the
  sign document only); its type resolver is not read. \<^verbatim>\<open>json.Unmarshal\<close> and
  \<^verbatim>\<open>json.Marshal\<close> of Go's \<^verbatim>\<open>encoding/json\<close> are the two fields of \<open>encoding_json\<close>,
  over the type \<open>'c\<close> of decoded values; an error of the encoder or of the JSON library is
  kept as its message. \<open>bodyDesc\<close> is the descriptor that
  \<^verbatim>\<open>body.ProtoReflect().Descriptor()\<close> returns, the same for every body.
\<close>

type_synonym Coin = "string \<times> string"

record Fee =
  Amount :: "Coin list"
  GasLimit :: "64 word"
  Payer :: string
  Granter :: string

record Tip =
  tip_Amount :: "Coin list"
  Tipper :: string

record AuthInfo =
  Fee :: "Fee option"
  Tip :: "Tip option"

record TxBody =
  Messages :: "Any list"
  Memo :: string
  TimeoutHeight :: "64 word"
  ExtensionOptions :: "Any list"
  NonCriticalExtensionOptions :: "Any list"

record TxData =
  Body :: "TxBody option"
  AuthInfo :: "AuthInfo option"
  BodyBytes :: bytes

record SignerData =
  Address :: string
  ChainId :: string
  AccountNumber :: "64 word"
  Sequence :: "64 word"

record AminoSignFee =
  fee_Amount :: "Coin list"
  fee_Gas :: "64 word"
  fee_Payer :: string
  fee_Granter :: string

record AminoSignDoc =
  doc_AccountNumber :: "64 word"
  doc_TimeoutHeight :: "64 word"
  doc_ChainId :: string
  doc_Sequence :: "64 word"
  doc_Memo :: string
  doc_Msgs :: "Any list"
  doc_Fee :: AminoSignFee

record SignModeHandler =
  fileResolver :: Resolver
  encoder :: "AminoSignDoc \<Rightarrow> string + bytes"

record 'c encoding_json =
  json_Unmarshal :: "bytes \<Rightarrow> string + 'c"
  json_Marshal :: "'c \<Rightarrow> string + bytes"

definition sortJSON :: "'c encoding_json \<Rightarrow> bytes \<Rightarrow> error + bytes" where
  "sortJSON json toSortJSON =
     (case json_Unmarshal json toSortJSON of
        Inl err \<Rightarrow> Inl (ErrJSON err)
      | Inr c \<Rightarrow>
          (case json_Marshal json c of
             Inl err \<Rightarrow> Inl (ErrJSON err)
           | Inr js \<Rightarrow> Inr js))"

text \<open>
  \<^verbatim>\<open>encoding/json\<close> is Go's library, not code of this repository, and \<open>sortJSON\<close> is
  stated over it. \<open>json_round_trip\<close> is the property of the library that canonicalization
  relies on: a value that \<^verbatim>\<open>json.Unmarshal\<close> has returned, once encoded by
  \<^verbatim>\<open>json.Marshal\<close>, decodes to itself.
\<close>

definition json_round_trip :: "'c encoding_json \<Rightarrow> bool" where
  "json_round_trip json \<longleftrightarrow>
     (\<forall>x c js. json_Unmarshal json x = Inr c \<longrightarrow> json_Marshal json c = Inr js \<longrightarrow>
        json_Unmarshal json js = Inr c)"

text \<open>Lines 122 to 126: the document is encoded, and the encoding is sorted.\<close>

definition marshal_sorted ::
    "'c encoding_json \<Rightarrow> SignModeHandler \<Rightarrow> AminoSignDoc \<Rightarrow> error + bytes" where
  "marshal_sorted json h signDoc =
     (case encoder h signDoc of
        Inl err \<Rightarrow> Inl (ErrEncoder err)
      | Inr bz \<Rightarrow> sortJSON json bz)"

definition GetSignBytes ::
    "'c encoding_json \<Rightarrow> SignModeHandler \<Rightarrow> MessageDescriptor \<Rightarrow> SignerData \<Rightarrow> TxData
       \<Rightarrow> error + bytes" where
  "GetSignBytes json h bodyDesc signerData txData =
     (case snd (RejectUnknownFields (BodyBytes txData) bodyDesc False (fileResolver h)) of
        Some err \<Rightarrow> Inl err
      | None \<Rightarrow>
          (case Body txData of
             None \<Rightarrow> Inl PanicNilDereference
           | Some body \<Rightarrow>
               if length (ExtensionOptions body) > 0 \<or> length (NonCriticalExtensionOptions body) > 0
               then Inl ErrExtensionOptions
               else if Address signerData = '''' then Inl ErrEmptyAddress
               else
                 (case AuthInfo txData of
                    None \<Rightarrow> Inl PanicNilDereference
                  | Some authInfo \<Rightarrow>
                      let tip = Tip authInfo in
                      if (case tip of None \<Rightarrow> False | Some t \<Rightarrow> Tipper t = '''')
                      then Inl ErrEmptyTipper
                      else
                        let isTipper =
                              (case tip of None \<Rightarrow> False | Some t \<Rightarrow> Tipper t = Address signerData)
                        in
                        (case (if isTipper then
                                 Inr \<lparr>fee_Amount = [], fee_Gas = 0, fee_Payer = '''',
                                      fee_Granter = ''''\<rparr>
                               else
                                 (case Fee authInfo of
                                    None \<Rightarrow> Inl ErrNilFee
                                  | Some f \<Rightarrow>
                                      Inr \<lparr>fee_Amount = Amount f, fee_Gas = GasLimit f,
                                           fee_Payer = Payer f, fee_Granter = Granter f\<rparr>)) of
                           Inl err \<Rightarrow> Inl err
                         | Inr fee \<Rightarrow>
                             marshal_sorted json h
                               \<lparr>doc_AccountNumber = AccountNumber signerData,
                                doc_TimeoutHeight = TimeoutHeight body,
                                doc_ChainId = ChainId signerData,
                                doc_Sequence = Sequence signerData,
                                doc_Memo = Memo body,
                                doc_Msgs = Messages body,
                                doc_Fee = fee\<rparr>))))"

section \<open>The walk of the validator\<close>

text \<open>
  Lines 94 to 126, what the loop body does with a field whose descriptor names a message
  type, as one value: the flag after the nested calls, and the error with which the body
  returns (\<open>None\<close> when the loop goes on to the next field).
\<close>

definition validate_nested ::
    "bytes \<Rightarrow> MessageDescriptor \<Rightarrow> bool \<Rightarrow> Resolver \<Rightarrow> bool \<Rightarrow> bool \<times> error option" where
  "validate_nested fieldBytes fieldMessage allow resolver has =
     (case ConsumeVarint fieldBytes of
        Inl e \<Rightarrow> (has, Some PanicSliceBounds)
      | Inr (v, o') \<Rightarrow>
          if msg_FullName fieldMessage = anyFullName then
            (case RejectUnknownFields (drop o' fieldBytes) anyDesc allow resolver of
               (child, err) \<Rightarrow>
                 if err \<noteq> None then (has \<or> child, err)
                 else
                   (case Unmarshal_Any (drop o' fieldBytes) of
                      Inl e \<Rightarrow> (has \<or> child, Some (ErrUnmarshal e))
                    | Inr a \<Rightarrow>
                        (case resolver (MessageNameFromTypeURL (TypeUrl a)) of
                           Inl e \<Rightarrow> (has \<or> child, Some (ErrResolver e))
                         | Inr (OtherDesc nm) \<Rightarrow> (has \<or> child, Some PanicInterfaceConversion)
                         | Inr (MessageDesc msgDesc) \<Rightarrow>
                             (case RejectUnknownFields (Value a) msgDesc allow resolver of
                                (child2, err2) \<Rightarrow> ((has \<or> child) \<or> child2, err2)))))
          else
            (case RejectUnknownFields (drop o' fieldBytes) fieldMessage allow resolver of
               (child, err) \<Rightarrow> (has \<or> child, err)))"

subsection \<open>Where a field occurs\<close>

text \<open>
  \<open>occurs resolver bz desc d tagNum wireType\<close>: walking the buffer \<open>bz\<close> as a message of
  type \<open>desc\<close>, the decoder's structure holds a field with tag \<open>(tagNum, wireType)\<close> in a
  message of type \<open>d\<close>. The field is the first of the buffer (\<open>here\<close>), or comes after a
  first field whose length can be computed (\<open>later\<close>), or lies in the payload of a first
  field that the descriptor declares as a message (\<open>nested\<close>), in the wireframe of an
  envelope (\<open>envelope\<close>), or in the payload of an envelope whose type URL the resolver maps
  to a message descriptor (\<open>payload\<close>). The rules only parse; they do not ask whether the
  fields passed on the way are themselves accepted.
\<close>

inductive occurs ::
    "Resolver \<Rightarrow> bytes \<Rightarrow> MessageDescriptor \<Rightarrow> MessageDescriptor \<Rightarrow> Number \<Rightarrow> WireType \<Rightarrow> bool"
  for resolver :: Resolver
where
  here:
    "ConsumeTag bz = Inr (tagNum, wireType, m)
     \<Longrightarrow> occurs resolver bz desc desc tagNum wireType"
| later:
    "ConsumeTag bz = Inr (t, w, m) \<Longrightarrow> ConsumeFieldValue t w (drop m bz) = Inr n
     \<Longrightarrow> occurs resolver (drop n (drop m bz)) desc d tagNum wireType
     \<Longrightarrow> occurs resolver bz desc d tagNum wireType"
| nested:
    "ConsumeTag bz = Inr (t, w, m) \<Longrightarrow> ConsumeFieldValue t w (drop m bz) = Inr n
     \<Longrightarrow> ByNumber (msg_Fields desc) t = Some fd
     \<Longrightarrow> isWireTypeAssignable w (field_Kind fd)
     \<Longrightarrow> field_Message fd = Some fieldMessage
     \<Longrightarrow> msg_FullName fieldMessage \<noteq> anyFullName
     \<Longrightarrow> ConsumeVarint (take n (drop m bz)) = Inr (v, o')
     \<Longrightarrow> occurs resolver (drop o' (take n (drop m bz))) fieldMessage d tagNum wireType
     \<Longrightarrow> occurs resolver bz desc d tagNum wireType"
| envelope:
    "ConsumeTag bz = Inr (t, w, m) \<Longrightarrow> ConsumeFieldValue t w (drop m bz) = Inr n
     \<Longrightarrow> ByNumber (msg_Fields desc) t = Some fd
     \<Longrightarrow> isWireTypeAssignable w (field_Kind fd)
     \<Longrightarrow> field_Message fd = Some fieldMessage
     \<Longrightarrow> msg_FullName fieldMessage = anyFullName
     \<Longrightarrow> ConsumeVarint (take n (drop m bz)) = Inr (v, o')
     \<Longrightarrow> occurs resolver (drop o' (take n (drop m bz))) anyDesc d tagNum wireType
     \<Longrightarrow> occurs resolver bz desc d tagNum wireType"
| payload:
    "ConsumeTag bz = Inr (t, w, m) \<Longrightarrow> ConsumeFieldValue t w (drop m bz) = Inr n
     \<Longrightarrow> ByNumber (msg_Fields desc) t = Some fd
     \<Longrightarrow> isWireTypeAssignable w (field_Kind fd)
     \<Longrightarrow> field_Message fd = Some fieldMessage
     \<Longrightarrow> msg_FullName fieldMessage = anyFullName
     \<Longrightarrow> ConsumeVarint (take n (drop m bz)) = Inr (v, o')
     \<Longrightarrow> Unmarshal_Any (drop o' (take n (drop m bz))) = Inr a
     \<Longrightarrow> resolver (MessageNameFromTypeURL (TypeUrl a)) = Inr (MessageDesc msgDesc)
     \<Longrightarrow> occurs resolver (Value a) msgDesc d tagNum wireType
     \<Longrightarrow> occurs resolver bz desc d tagNum wireType"

text \<open>
  The field occurrences that end the walk with an error: a number the descriptor does not
  have, unless its bit 1024 is set and non-critical fields are allowed, and a number the
  descriptor has with a wire type that its kind does not take.
\<close>

definition rejected :: "MessageDescriptor \<Rightarrow> Number \<Rightarrow> WireType \<Rightarrow> bool \<Rightarrow> bool" where
  "rejected d tagNum wireType allow =
     (case ByNumber (msg_Fields d) tagNum of
        None \<Rightarrow> tagNum AND 1024 = 0 \<or> \<not> allow
      | Some fd \<Rightarrow> \<not> isWireTypeAssignable wireType (field_Kind fd))"

subsection \<open>Valid buffers\<close>

text \<open>
  \<open>valid_buffer resolver bz desc\<close>: the buffer \<open>bz\<close> is a valid encoding of a message of
  type \<open>desc\<close> in which an unknown field, if there is one, is non-critical. The predicate
  is stated on the input alone, field by field. The buffer is empty (\<open>empty\<close>), or its first
  field has a tag and a value whose length can be computed, the rest of the buffer is valid,
  and the first field is one of: a number the descriptor does not have, with bit 1024 set
  (\<open>noncritical\<close>); a number the descriptor has, with a wire type its kind takes, that is
  not a message (\<open>scalar\<close>); a nested message whose payload is valid for the nested
  descriptor (\<open>message\<close>); an envelope whose wireframe is valid for the envelope
  descriptor, which decodes, whose type URL the resolver maps to a message descriptor, and
  whose payload is valid for that descriptor (\<open>envelope\<close>).
\<close>

inductive valid_buffer :: "Resolver \<Rightarrow> bytes \<Rightarrow> MessageDescriptor \<Rightarrow> bool"
  for resolver :: Resolver
where
  empty:
    "valid_buffer resolver [] desc"
| noncritical:
    "ConsumeTag bz = Inr (t, w, m) \<Longrightarrow> ConsumeFieldValue t w (drop m bz) = Inr n
     \<Longrightarrow> ByNumber (msg_Fields desc) t = None
     \<Longrightarrow> t AND 1024 \<noteq> 0
     \<Longrightarrow> valid_buffer resolver (drop n (drop m bz)) desc
     \<Longrightarrow> valid_buffer resolver bz desc"
| scalar:
    "ConsumeTag bz = Inr (t, w, m) \<Longrightarrow> ConsumeFieldValue t w (drop m bz) = Inr n
     \<Longrightarrow> ByNumber (msg_Fields desc) t = Some fd
     \<Longrightarrow> isWireTypeAssignable w (field_Kind fd)
     \<Longrightarrow> field_Message fd = None
     \<Longrightarrow> valid_buffer resolver (drop n (drop m bz)) desc
     \<Longrightarrow> valid_buffer resolver bz desc"
| message:
    "ConsumeTag bz = Inr (t, w, m) \<Longrightarrow> ConsumeFieldValue t w (drop m bz) = Inr n
     \<Longrightarrow> ByNumber (msg_Fields desc) t = Some fd
     \<Longrightarrow> isWireTypeAssignable w (field_Kind fd)
     \<Longrightarrow> field_Message fd = Some fieldMessage
     \<Longrightarrow> msg_FullName fieldMessage \<noteq> anyFullName
     \<Longrightarrow> ConsumeVarint (take n (drop m bz)) = Inr (v, o')
     \<Longrightarrow> valid_buffer resolver (drop o' (take n (drop m bz))) fieldMessage
     \<Longrightarrow> valid_buffer resolver (drop n (drop m bz)) desc
     \<Longrightarrow> valid_buffer resolver bz desc"
| envelope:
    "ConsumeTag bz = Inr (t, w, m) \<Longrightarrow> ConsumeFieldValue t w (drop m bz) = Inr n
     \<Longrightarrow> ByNumber (msg_Fields desc) t = Some fd
     \<Longrightarrow> isWireTypeAssignable w (field_Kind fd)
     \<Longrightarrow> field_Message fd = Some fieldMessage
     \<Longrightarrow> msg_FullName fieldMessage = anyFullName
     \<Longrightarrow> ConsumeVarint (take n (drop m bz)) = Inr (v, o')
     \<Longrightarrow> valid_buffer resolver (drop o' (take n (drop m bz))) anyDesc
     \<Longrightarrow> Unmarshal_Any (drop o' (take n (drop m bz))) = Inr a
     \<Longrightarrow> resolver (MessageNameFromTypeURL (TypeUrl a)) = Inr (MessageDesc msgDesc)
     \<Longrightarrow> valid_buffer resolver (Value a) msgDesc
     \<Longrightarrow> valid_buffer resolver (drop n (drop m bz)) desc
     \<Longrightarrow> valid_buffer resolver bz desc"

subsection \<open>The calls of the validator\<close>

text \<open>
  A call of \<^verbatim>\<open>RejectUnknownFields\<close> (\<open>Inl\<close>, with its four arguments) or an iteration of
  its loop (\<open>Inr\<close>, with the remaining buffer and the flag). \<open>calls caller callee\<close>: while
  it runs, \<open>caller\<close> makes the call \<open>callee\<close>. This is the call relation that the definition
  of \<open>RejectUnknownFields\<close> and \<open>RejectUnknownFields_loop\<close> gives rise to, the one its
  termination proof shows well-founded.
\<close>

type_synonym RejectUnknownFields_call =
  "(bytes \<times> MessageDescriptor \<times> bool \<times> Resolver)
   + (bytes \<times> MessageDescriptor \<times> bool \<times> Resolver \<times> bool)"

definition calls :: "RejectUnknownFields_call \<Rightarrow> RejectUnknownFields_call \<Rightarrow> bool" where
  "calls caller callee = RejectUnknownFields_RejectUnknownFields_loop_rel callee caller"

definition call_size :: "RejectUnknownFields_call \<Rightarrow> nat" where
  "call_size c =
     (case c of
        Inl (bz, desc, allow, resolver) \<Rightarrow> 2 * length bz + 1
      | Inr (bz, desc, allow, resolver, has) \<Rightarrow> 2 * length bz)"

subsection \<open>Examples\<close>

text \<open>
  A message \<open>T\<close> with one string field; a message \<open>test.Leaf\<close> with one string field; a
  message \<open>test.Box\<close> with a \<open>test.Leaf\<close> (field 1), an envelope (field 2) and a string
  whose number 1027 has bit 1024 set; a resolver that knows the two test messages and an
  enum \<open>test.Kind\<close>. \<open>envelope_bytes\<close> is a \<open>test.Box\<close> whose envelope, of type URL
  \<open>/test.Box\<close>, holds a \<open>test.Box\<close> whose leaf holds the unknown field 1024 (a varint 1);
  \<open>deep_bytes\<close> is a \<open>test.Box\<close> whose envelope holds \<open>envelope_bytes\<close>, an envelope
  in an envelope.
\<close>

definition example_desc :: MessageDescriptor where
  "example_desc = MessageDescriptor ''T'' [FieldDescriptor 1 ''T.a'' StringKind None]"

definition leaf_desc :: MessageDescriptor where
  "leaf_desc = MessageDescriptor ''test.Leaf''
     [FieldDescriptor 1 ''test.Leaf.name'' StringKind None]"

definition box_desc :: MessageDescriptor where
  "box_desc = MessageDescriptor ''test.Box''
     [FieldDescriptor 1 ''test.Box.leaf'' MessageKind (Some leaf_desc),
      FieldDescriptor 2 ''test.Box.any'' MessageKind (Some anyDesc),
      FieldDescriptor 1027 ''test.Box.note'' StringKind None]"

definition test_resolver :: Resolver where
  "test_resolver name =
     (if name = ''test.Box'' then Inr (MessageDesc box_desc)
      else if name = ''test.Leaf'' then Inr (MessageDesc leaf_desc)
      else if name = ''test.Kind'' then Inr (OtherDesc ''test.Kind'')
      else Inl name)"

definition envelope_bytes :: bytes where
  "envelope_bytes =
     [0x12, 0x12,
        0x0a, 0x09, 0x2f, 0x74, 0x65, 0x73, 0x74, 0x2e, 0x42, 0x6f, 0x78,
        0x12, 0x05,
          0x0a, 0x03,
            0x80, 0x40, 0x01]"

definition deep_bytes :: bytes where
  "deep_bytes =
     [0x12, 0x21,
        0x0a, 0x09, 0x2f, 0x74, 0x65, 0x73, 0x74, 0x2e, 0x42, 0x6f, 0x78,
        0x12, 0x14,
          0x12, 0x12,
            0x0a, 0x09, 0x2f, 0x74, 0x65, 0x73, 0x74, 0x2e, 0x42, 0x6f, 0x78,
            0x12, 0x05,
              0x0a, 0x03,
                0x80, 0x40, 0x01]"

text \<open>
  For the sign mode handler: the descriptor of the transaction body, an encoder that writes
  the low byte of the fee's gas and the number of its coins, a JSON library that returns its
  input, a body whose bytes hold the memo \<open>hello\<close>, a transaction with a fee and a tip of
  tipper \<open>alice\<close>, the same transaction without its fee, and two signers.
\<close>

definition TxBody_Descriptor :: MessageDescriptor where
  "TxBody_Descriptor = MessageDescriptor ''cosmos.tx.v1beta1.TxBody''
     [FieldDescriptor 1 ''cosmos.tx.v1beta1.TxBody.messages'' MessageKind (Some anyDesc),
      FieldDescriptor 2 ''cosmos.tx.v1beta1.TxBody.memo'' StringKind None,
      FieldDescriptor 3 ''cosmos.tx.v1beta1.TxBody.timeout_height'' Uint64Kind None,
      FieldDescriptor 1023 ''cosmos.tx.v1beta1.TxBody.extension_options'' MessageKind
        (Some anyDesc),
      FieldDescriptor 2047 ''cosmos.tx.v1beta1.TxBody.non_critical_extension_options''
        MessageKind (Some anyDesc)]"

definition test_encoder :: "AminoSignDoc \<Rightarrow> string + bytes" where
  "test_encoder signDoc =
     Inr [ucast (fee_Gas (doc_Fee signDoc)), of_nat (length (fee_Amount (doc_Fee signDoc)))]"

definition test_handler :: SignModeHandler where
  "test_handler = \<lparr>fileResolver = test_resolver, encoder = test_encoder\<rparr>"

definition test_json :: "bytes encoding_json" where
  "test_json = \<lparr>json_Unmarshal = Inr, json_Marshal = Inr\<rparr>"

definition test_body :: TxBody where
  "test_body = \<lparr>Messages = [], Memo = ''hello'', TimeoutHeight = 0, ExtensionOptions = [],
     NonCriticalExtensionOptions = []\<rparr>"

definition test_fee :: Fee where
  "test_fee = \<lparr>Amount = [(''stake'', ''100'')], GasLimit = 200000, Payer = [], Granter = []\<rparr>"

definition test_tip :: Tip where
  "test_tip = \<lparr>tip_Amount = [(''stake'', ''5'')], Tipper = ''alice''\<rparr>"

definition tipped_tx :: TxData where
  "tipped_tx = \<lparr>Body = Some test_body,
     AuthInfo = Some \<lparr>Fee = Some test_fee, Tip = Some test_tip\<rparr>,
     BodyBytes = [0x12, 0x05, 0x68, 0x65, 0x6c, 0x6c, 0x6f]\<rparr>"

definition feeless_tx :: TxData where
  "feeless_tx = \<lparr>Body = Some test_body,
     AuthInfo = Some \<lparr>Fee = None, Tip = Some test_tip\<rparr>,
     BodyBytes = [0x12, 0x05, 0x68, 0x65, 0x6c, 0x6c, 0x6f]\<rparr>"

definition alice :: SignerData where
  "alice = \<lparr>Address = ''alice'', ChainId = ''test-1'', AccountNumber = 7, Sequence = 3\<rparr>"

definition bob :: SignerData where
  "bob = \<lparr>Address = ''bob'', ChainId = ''test-1'', AccountNumber = 8, Sequence = 1\<rparr>"

text \<open>
  For the preconditions of the sign mode handler: a signer without an address, a body that
  carries one extension option (an envelope of type URL \<open>/test.Leaf\<close> with an empty
  payload, field 1023 of the body bytes), and a transaction whose tip has no tipper.
\<close>

definition nobody :: SignerData where
  "nobody = \<lparr>Address = [], ChainId = ''test-1'', AccountNumber = 9, Sequence = 0\<rparr>"

definition extension_body :: TxBody where
  "extension_body = \<lparr>Messages = [], Memo = ''hello'', TimeoutHeight = 0,
     ExtensionOptions = [\<lparr>TypeUrl = ''/test.Leaf'', Value = []\<rparr>],
     NonCriticalExtensionOptions = []\<rparr>"

definition extension_tx :: TxData where
  "extension_tx = \<lparr>Body = Some extension_body,
     AuthInfo = Some \<lparr>Fee = Some test_fee, Tip = None\<rparr>,
     BodyBytes = [0x12, 0x05, 0x68, 0x65, 0x6c, 0x6c, 0x6f,
                  0xfa, 0x3f, 0x0c,
                    0x0a, 0x0a, 0x2f, 0x74, 0x65, 0x73, 0x74, 0x2e, 0x4c, 0x65, 0x61, 0x66]\<rparr>"

definition nameless_tip :: Tip where
  "nameless_tip = \<lparr>tip_Amount = [(''stake'', ''5'')], Tipper = []\<rparr>"

definition empty_tipper_tx :: TxData where
  "empty_tipper_tx = \<lparr>Body = Some test_body,
     AuthInfo = Some \<lparr>Fee = Some test_fee, Tip = Some nameless_tip\<rparr>,
     BodyBytes = [0x12, 0x05, 0x68, 0x65, 0x6c, 0x6c, 0x6f]\<rparr>"

text \<open>
  For canonicalization: a JSON library for the flat objects whose keys and values are
  strings of plain characters (printable ASCII other than the quote, the backslash and the
  three characters \<^verbatim>\<open><\<close>, \<^verbatim>\<open>>\<close> and \<^verbatim>\<open>&\<close>, which
  \<^verbatim>\<open>json.Marshal\<close> escapes), written without white space, as in
  \<^verbatim>\<open>{"b":"1","a":"2"}\<close>. On these texts it does what \<^verbatim>\<open>encoding/json\<close> does: decoding
  gives the map from keys to values, in which the last value of a repeated key wins, and
  encoding writes the members in increasing order of their keys. The decoded map is held as
  the list of its members in that order. Every other text is an error of this library.
\<close>

definition plain :: "byte \<Rightarrow> bool" where
  "plain b \<longleftrightarrow> 0x20 \<le> b \<and> b < 0x7f \<and> b \<noteq> 0x22 \<and> b \<noteq> 0x26 \<and> b \<noteq> 0x3c \<and> b \<noteq> 0x3e
     \<and> b \<noteq> 0x5c"

datatype scan_state =
  Start | First | InKey bytes | Colon bytes | Quote bytes | InVal bytes bytes | After | Comma
  | Closed

fun scan :: "scan_state \<Rightarrow> (bytes \<times> bytes) list \<Rightarrow> bytes \<Rightarrow> (bytes \<times> bytes) list option" where
  "scan st ps [] = (if st = Closed then Some (rev ps) else None)"
| "scan st ps (b # bs) =
     (case st of
        Start \<Rightarrow> if b = 0x7b then scan First ps bs else None
      | First \<Rightarrow>
          if b = 0x22 then scan (InKey []) ps bs
          else if b = 0x7d then scan Closed ps bs else None
      | InKey k \<Rightarrow>
          if b = 0x22 then scan (Colon (rev k)) ps bs
          else if plain b then scan (InKey (b # k)) ps bs else None
      | Colon k \<Rightarrow> if b = 0x3a then scan (Quote k) ps bs else None
      | Quote k \<Rightarrow> if b = 0x22 then scan (InVal k []) ps bs else None
      | InVal k v \<Rightarrow>
          if b = 0x22 then scan After ((k, rev v) # ps) bs
          else if plain b then scan (InVal k (b # v)) ps bs else None
      | After \<Rightarrow>
          if b = 0x2c then scan Comma ps bs
          else if b = 0x7d then scan Closed ps bs else None
      | Comma \<Rightarrow> if b = 0x22 then scan (InKey []) ps bs else None
      | Closed \<Rightarrow> None)"

fun upsert :: "bytes \<times> bytes \<Rightarrow> (bytes \<times> bytes) list \<Rightarrow> (bytes \<times> bytes) list" where
  "upsert p [] = [p]"
| "upsert p (q # qs) =
     (if fst p = fst q then p # qs
      else if fst p < fst q then p # q # qs
      else q # upsert p qs)"

definition member_text :: "bytes \<times> bytes \<Rightarrow> bytes" where
  "member_text p = 0x22 # fst p @ [0x22, 0x3a, 0x22] @ snd p @ [0x22]"

fun members_text :: "(bytes \<times> bytes) list \<Rightarrow> bytes" where
  "members_text [] = [0x7d]"
| "members_text (p # ps) = 0x2c # member_text p @ members_text ps"

definition object_text :: "(bytes \<times> bytes) list \<Rightarrow> bytes" where
  "object_text c =
     (case c of [] \<Rightarrow> [0x7b, 0x7d] | p # ps \<Rightarrow> 0x7b # member_text p @ members_text ps)"

definition flat_json :: "(bytes \<times> bytes) list encoding_json" where
  "flat_json =
     \<lparr>json_Unmarshal = (\<lambda>x. case scan Start [] x of
          None \<Rightarrow> Inl ''invalid character''
        | Some ps \<Rightarrow> Inr (fold upsert ps [])),
      json_Marshal = (\<lambda>c. Inr (object_text c))\<rparr>"

definition plain_pair :: "bytes \<times> bytes \<Rightarrow> bool" where
  "plain_pair p \<longleftrightarrow> list_all plain (fst p) \<and> list_all plain (snd p)"

fun plain_state :: "scan_state \<Rightarrow> bool" where
  "plain_state (InKey k) = list_all plain k"
| "plain_state (Colon k) = list_all plain k"
| "plain_state (Quote k) = list_all plain k"
| "plain_state (InVal k v) = (list_all plain k \<and> list_all plain v)"
| "plain_state st = True"

section \<open>Lemmas on the walk\<close>

lemma RejectUnknownFields_loop_Nil [simp]:
  "RejectUnknownFields_loop [] desc allow resolver has = (has, None)"
  by (simp add: RejectUnknownFields_loop.simps)

lemma RejectUnknownFields_eq_loop:
  "RejectUnknownFields bz desc allow resolver = RejectUnknownFields_loop bz desc allow resolver False"
  by (simp add: RejectUnknownFields.simps)

lemma ConsumeTag_nonempty: "ConsumeTag bz = Inr (t, w, m) \<Longrightarrow> length bz > 0"
  using ConsumeTag_bounds [of bz t w m] by auto

lemma loop_tag_error:
  assumes "bz \<noteq> []" "ConsumeTag bz = Inl e"
  shows "RejectUnknownFields_loop bz desc allow resolver has = (has, Some ErrInvalidLength)"
  using assms by (subst RejectUnknownFields_loop.simps) simp

lemma loop_unknown:
  assumes "ConsumeTag bz = Inr (t, w, m)" "ByNumber (msg_Fields desc) t = None"
  shows "RejectUnknownFields_loop bz desc allow resolver has =
     (if t AND bit11NonCritical = 0 then
        (has, Some (ErrUnknownField (msg_FullName desc) t w))
      else if \<not> allow then (True, Some (ErrUnknownField (msg_FullName desc) t w))
      else
        (case ConsumeFieldValue t w (drop m bz) of
           Inl pe \<Rightarrow> (True, Some (ErrConsumeFieldValue t w pe))
         | Inr n \<Rightarrow> RejectUnknownFields_loop (drop n (drop m bz)) desc allow resolver True))"
  using assms ConsumeTag_nonempty [OF assms(1)]
  by (subst RejectUnknownFields_loop.simps) (simp add: Let_def split: sum.splits)

lemma loop_known_error:
  assumes "ConsumeTag bz = Inr (t, w, m)" "ByNumber (msg_Fields desc) t = Some fd"
    "ConsumeFieldValue t w (drop m bz) = Inl pe"
  shows "RejectUnknownFields_loop bz desc allow resolver has =
     (has, Some (ErrConsumeFieldValue t w pe))"
  using assms ConsumeTag_nonempty [OF assms(1)]
  by (subst RejectUnknownFields_loop.simps) (simp add: Let_def)

lemma loop_known_wire_type:
  assumes "ConsumeTag bz = Inr (t, w, m)" "ByNumber (msg_Fields desc) t = Some fd"
    "ConsumeFieldValue t w (drop m bz) = Inr n" "\<not> isWireTypeAssignable w (field_Kind fd)"
  shows "RejectUnknownFields_loop bz desc allow resolver has =
     (has, Some (ErrInvalidWireType w (field_FullName fd)))"
  using assms ConsumeTag_nonempty [OF assms(1)]
  by (subst RejectUnknownFields_loop.simps) (simp add: Let_def)

lemma loop_known_scalar:
  assumes "ConsumeTag bz = Inr (t, w, m)" "ByNumber (msg_Fields desc) t = Some fd"
    "ConsumeFieldValue t w (drop m bz) = Inr n" "isWireTypeAssignable w (field_Kind fd)"
    "field_Message fd = None"
  shows "RejectUnknownFields_loop bz desc allow resolver has =
     RejectUnknownFields_loop (drop n (drop m bz)) desc allow resolver has"
  using assms ConsumeTag_nonempty [OF assms(1)]
  by (subst RejectUnknownFields_loop.simps) (simp add: Let_def)

lemma loop_known_message:
  assumes "ConsumeTag bz = Inr (t, w, m)" "ByNumber (msg_Fields desc) t = Some fd"
    "ConsumeFieldValue t w (drop m bz) = Inr n" "isWireTypeAssignable w (field_Kind fd)"
    "field_Message fd = Some fm"
  shows "RejectUnknownFields_loop bz desc allow resolver has =
     (case validate_nested (take n (drop m bz)) fm allow resolver has of
        (h, None) \<Rightarrow> RejectUnknownFields_loop (drop n (drop m bz)) desc allow resolver h
      | (h, Some e) \<Rightarrow> (h, Some e))"
  using assms ConsumeTag_nonempty [OF assms(1)]
  apply (subst RejectUnknownFields_loop.simps)
  apply (simp add: Let_def validate_nested_def)
  apply (simp split: sum.splits prod.splits option.splits Descriptor.splits)
  done

lemma validate_nested_flag:
  "validate_nested fb fm allow resolver has =
     (has \<or> fst (validate_nested fb fm allow resolver False),
      snd (validate_nested fb fm allow resolver False))"
  by (simp add: validate_nested_def
      split: sum.splits prod.splits option.splits Descriptor.splits)

lemma loop_flag:
  "RejectUnknownFields_loop bz desc allow resolver has =
     (has \<or> fst (RejectUnknownFields_loop bz desc allow resolver False),
      snd (RejectUnknownFields_loop bz desc allow resolver False))"
proof (induction "length bz" arbitrary: bz has rule: less_induct)
  case less
  show ?case
  proof (cases "bz = []")
    case True
    then show ?thesis by simp
  next
    case ne: False
    show ?thesis
    proof (cases "ConsumeTag bz")
      case (Inl e)
      with ne show ?thesis by (simp add: loop_tag_error)
    next
      case (Inr r)
      then obtain t w m where tag: "ConsumeTag bz = Inr (t, w, m)" by (cases r) auto
      have m: "0 < m" "m \<le> length bz" using ConsumeTag_bounds [OF tag] by auto
      have shorter: "length (drop n (drop m bz)) < length bz" for n using m by simp
      note IH = less [OF shorter]
      show ?thesis
      proof (cases "ByNumber (msg_Fields desc) t")
        case None
        have "fst (RejectUnknownFields_loop (drop n (drop m bz)) desc allow resolver True)" for n
          by (subst IH) simp
        then show ?thesis
          by (auto simp add: loop_unknown [OF tag None] prod_eq_iff split: sum.splits)
      next
        case (Some fd)
        show ?thesis
        proof (cases "ConsumeFieldValue t w (drop m bz)")
          case (Inl pe)
          then show ?thesis by (simp add: loop_known_error [OF tag Some])
        next
          case (Inr n)
          show ?thesis
          proof (cases "isWireTypeAssignable w (field_Kind fd)")
            case False
            then show ?thesis by (simp add: loop_known_wire_type [OF tag Some Inr])
          next
            case True
            show ?thesis
            proof (cases "field_Message fd")
              case None
              show ?thesis
                using IH [of n has]
                by (simp add: loop_known_scalar [OF tag Some Inr True None])
            next
              case fm: (Some fm)
              obtain h e where v: "validate_nested (take n (drop m bz)) fm allow resolver False = (h, e)"
                by (cases "validate_nested (take n (drop m bz)) fm allow resolver False") auto
              have v': "validate_nested (take n (drop m bz)) fm allow resolver has = (has \<or> h, e)"
                using validate_nested_flag [of _ _ _ _ has] v by simp
              show ?thesis
              proof (cases e)
                case None
                show ?thesis
                  using IH [of n "has \<or> h"] IH [of n h]
                  by (simp add: loop_known_message [OF tag Some Inr True fm] v v' None)
              next
                case (Some err)
                then show ?thesis
                  by (simp add: loop_known_message [OF tag \<open>ByNumber (msg_Fields desc) t = Some fd\<close> Inr True fm] v v')
              qed
            qed
          qed
        qed
      qed
    qed
  qed
qed

lemma bit11NonCritical_1024: "bit11NonCritical = 1024"
  by (simp add: bit11NonCritical_def)

lemma loop_error_flag_free:
  "snd (RejectUnknownFields_loop bz desc allow resolver has) =
     snd (RejectUnknownFields bz desc allow resolver)"
  by (subst loop_flag) (simp add: RejectUnknownFields_eq_loop)

lemma loop_flag_True:
  "fst (RejectUnknownFields_loop bz desc allow resolver has) =
     (has \<or> fst (RejectUnknownFields bz desc allow resolver))"
  by (subst loop_flag) (simp add: RejectUnknownFields_eq_loop)

lemma loop_proceeds:
  assumes tag: "ConsumeTag bz = Inr (t, w, m)"
    and val: "ConsumeFieldValue t w (drop m bz) = Inr n"
  shows "(\<exists>h e. RejectUnknownFields_loop bz desc allow resolver has = (h, Some e))
    \<or> (\<exists>h. RejectUnknownFields_loop bz desc allow resolver has =
           RejectUnknownFields_loop (drop n (drop m bz)) desc allow resolver h)"
proof (cases "ByNumber (msg_Fields desc) t")
  case None
  show ?thesis
    by (simp add: loop_unknown [OF tag None] val) blast
next
  case (Some fd)
  show ?thesis
  proof (cases "isWireTypeAssignable w (field_Kind fd)")
    case False
    then show ?thesis by (simp add: loop_known_wire_type [OF tag Some val])
  next
    case True
    show ?thesis
    proof (cases "field_Message fd")
      case None
      then show ?thesis using loop_known_scalar [OF tag Some val True] by blast
    next
      case fm: (Some fm)
      show ?thesis
        by (cases "validate_nested (take n (drop m bz)) fm allow resolver has")
           (auto simp add: loop_known_message [OF tag Some val True fm] split: option.splits)
    qed
  qed
qed

lemma validate_nested_message:
  assumes "ConsumeVarint fb = Inr (v, o')" "msg_FullName fm \<noteq> anyFullName"
  shows "validate_nested fb fm allow resolver has =
     (has \<or> fst (RejectUnknownFields (drop o' fb) fm allow resolver),
      snd (RejectUnknownFields (drop o' fb) fm allow resolver))"
  using assms by (simp add: validate_nested_def split: prod.splits)

lemma validate_nested_envelope_error:
  assumes "ConsumeVarint fb = Inr (v, o')" "msg_FullName fm = anyFullName"
    "snd (RejectUnknownFields (drop o' fb) anyDesc allow resolver) \<noteq> None"
  shows "validate_nested fb fm allow resolver has =
     (has \<or> fst (RejectUnknownFields (drop o' fb) anyDesc allow resolver),
      snd (RejectUnknownFields (drop o' fb) anyDesc allow resolver))"
  using assms by (auto simp add: validate_nested_def split: prod.splits)

lemma validate_nested_payload:
  assumes "ConsumeVarint fb = Inr (v, o')" "msg_FullName fm = anyFullName"
    "snd (RejectUnknownFields (drop o' fb) anyDesc allow resolver) = None"
    "Unmarshal_Any (drop o' fb) = Inr a"
    "resolver (MessageNameFromTypeURL (TypeUrl a)) = Inr (MessageDesc msgDesc)"
  shows "validate_nested fb fm allow resolver has =
     ((has \<or> fst (RejectUnknownFields (drop o' fb) anyDesc allow resolver))
        \<or> fst (RejectUnknownFields (Value a) msgDesc allow resolver),
      snd (RejectUnknownFields (Value a) msgDesc allow resolver))"
  using assms by (auto simp add: validate_nested_def split: prod.splits)

lemma validate_nested_envelope_flag:
  assumes "ConsumeVarint fb = Inr (v, o')" "msg_FullName fm = anyFullName"
    "validate_nested fb fm allow resolver has = (h, None)"
  shows "snd (RejectUnknownFields (drop o' fb) anyDesc allow resolver) = None
    \<and> (fst (RejectUnknownFields (drop o' fb) anyDesc allow resolver) \<longrightarrow> h)"
  using assms
  by (auto simp add: validate_nested_def split: prod.splits sum.splits Descriptor.splits if_splits)

lemma occurs_rejected:
  assumes "occurs resolver bz desc d tagNum wireType" and "rejected d tagNum wireType allow"
  shows "snd (RejectUnknownFields bz desc allow resolver) \<noteq> None"
  using assms
proof (induction rule: occurs.induct)
  case (here bz tagNum wireType m desc)
  show ?case
  proof (cases "ByNumber (msg_Fields desc) tagNum")
    case None
    with here show ?thesis
      by (auto simp add: RejectUnknownFields_eq_loop loop_unknown [OF here(1) None]
          rejected_def bit11NonCritical_1024)
  next
    case (Some fd)
    with here have na: "\<not> isWireTypeAssignable wireType (field_Kind fd)"
      by (simp add: rejected_def)
    show ?thesis
    proof (cases "ConsumeFieldValue tagNum wireType (drop m bz)")
      case (Inl pe)
      then show ?thesis
        by (simp add: RejectUnknownFields_eq_loop loop_known_error [OF here(1) Some])
    next
      case (Inr n)
      then show ?thesis
        by (simp add: RejectUnknownFields_eq_loop loop_known_wire_type [OF here(1) Some Inr na])
    qed
  qed
next
  case (later bz t w m n desc d tagNum wireType)
  from later.IH [OF later.prems]
  have "snd (RejectUnknownFields_loop (drop n (drop m bz)) desc allow resolver h) \<noteq> None" for h
    by (simp add: loop_error_flag_free)
  with loop_proceeds [OF later.hyps(1,2), of desc allow resolver False]
  show ?case by (auto simp add: RejectUnknownFields_eq_loop)
next
  case (nested bz t w m n desc fd fieldMessage v o' d tagNum wireType)
  from nested.IH [OF nested.prems] obtain e where
    "snd (RejectUnknownFields (drop o' (take n (drop m bz))) fieldMessage allow resolver) = Some e"
    by auto
  then show ?case
    by (simp add: RejectUnknownFields_eq_loop [of bz]
        loop_known_message [OF nested.hyps(1,3,2,4,5)]
        validate_nested_message [OF nested.hyps(7,6)])
next
  case (envelope bz t w m n desc fd fieldMessage v o' d tagNum wireType)
  from envelope.IH [OF envelope.prems] obtain e where
    e: "snd (RejectUnknownFields (drop o' (take n (drop m bz))) anyDesc allow resolver) = Some e"
    by auto
  then have "snd (RejectUnknownFields (drop o' (take n (drop m bz))) anyDesc allow resolver) \<noteq> None"
    by simp
  from validate_nested_envelope_error [OF envelope.hyps(7,6) this] e show ?case
    by (simp add: RejectUnknownFields_eq_loop [of bz]
        loop_known_message [OF envelope.hyps(1,3,2,4,5)])
next
  case (payload bz t w m n desc fd fieldMessage v o' a msgDesc d tagNum wireType)
  from payload.IH [OF payload.prems] obtain e where
    e: "snd (RejectUnknownFields (Value a) msgDesc allow resolver) = Some e"
    by auto
  show ?case
  proof (cases "snd (RejectUnknownFields (drop o' (take n (drop m bz))) anyDesc allow resolver)")
    case None
    from validate_nested_payload [OF payload.hyps(7,6) None payload.hyps(8,9)] e show ?thesis
      by (simp add: RejectUnknownFields_eq_loop [of bz]
          loop_known_message [OF payload.hyps(1,3,2,4,5)])
  next
    case (Some e')
    then have "snd (RejectUnknownFields (drop o' (take n (drop m bz))) anyDesc allow resolver) \<noteq> None"
      by simp
    from validate_nested_envelope_error [OF payload.hyps(7,6) this] Some show ?thesis
      by (simp add: RejectUnknownFields_eq_loop [of bz]
          loop_known_message [OF payload.hyps(1,3,2,4,5)])
  qed
qed

lemma loop_known_message_success:
  assumes tag: "ConsumeTag bz = Inr (t, w, m)" and fd: "ByNumber (msg_Fields desc) t = Some fd"
    and val: "ConsumeFieldValue t w (drop m bz) = Inr n"
    and ok: "isWireTypeAssignable w (field_Kind fd)" and fm: "field_Message fd = Some fm"
    and success: "snd (RejectUnknownFields bz desc allow resolver) = None"
  obtains h where "validate_nested (take n (drop m bz)) fm allow resolver False = (h, None)"
    and "h \<Longrightarrow> fst (RejectUnknownFields bz desc allow resolver)"
proof -
  obtain h e where v: "validate_nested (take n (drop m bz)) fm allow resolver False = (h, e)"
    by (cases "validate_nested (take n (drop m bz)) fm allow resolver False") auto
  with success have e: "e = None"
    by (cases e) (simp_all add: RejectUnknownFields_eq_loop [of bz]
        loop_known_message [OF tag fd val ok fm])
  have "h \<Longrightarrow> fst (RejectUnknownFields bz desc allow resolver)"
    using v e
    by (simp add: RejectUnknownFields_eq_loop [of bz]
        loop_known_message [OF tag fd val ok fm] loop_flag_True)
  with v e that show ?thesis by blast
qed

lemma occurs_flag:
  assumes "occurs resolver bz desc d tagNum wireType"
    and "ByNumber (msg_Fields d) tagNum = None" and "tagNum AND 1024 \<noteq> 0"
    and "snd (RejectUnknownFields bz desc allow resolver) = None"
  shows "fst (RejectUnknownFields bz desc allow resolver)"
  using assms
proof (induction rule: occurs.induct)
  case (here bz tagNum wireType m desc)
  then show ?case
    by (auto simp add: RejectUnknownFields_eq_loop [of bz] loop_unknown [OF here(1,2)]
        bit11NonCritical_1024 loop_flag_True split: sum.splits if_splits)
next
  case (later bz t w m n desc d tagNum wireType)
  from loop_proceeds [OF later.hyps(1,2), of desc allow resolver False] later.prems(3)
  obtain h where h: "RejectUnknownFields bz desc allow resolver =
      RejectUnknownFields_loop (drop n (drop m bz)) desc allow resolver h"
    by (auto simp add: RejectUnknownFields_eq_loop [of bz])
  with later.prems(3) have "snd (RejectUnknownFields (drop n (drop m bz)) desc allow resolver) = None"
    by (simp add: loop_error_flag_free)
  from later.IH [OF later.prems(1,2) this] h show ?case
    by (simp add: loop_flag_True)
next
  case (nested bz t w m n desc fd fieldMessage v o' d tagNum wireType)
  from loop_known_message_success [OF nested.hyps(1,3,2,4,5) nested.prems(3)]
  obtain h where h: "validate_nested (take n (drop m bz)) fieldMessage allow resolver False = (h, None)"
    and f: "h \<Longrightarrow> fst (RejectUnknownFields bz desc allow resolver)"
    by blast
  from h have "snd (RejectUnknownFields (drop o' (take n (drop m bz))) fieldMessage allow resolver) = None"
    and "h = fst (RejectUnknownFields (drop o' (take n (drop m bz))) fieldMessage allow resolver)"
    by (simp_all add: validate_nested_message [OF nested.hyps(7,6)])
  with nested.IH [OF nested.prems(1,2)] f show ?case by simp
next
  case (envelope bz t w m n desc fd fieldMessage v o' d tagNum wireType)
  from loop_known_message_success [OF envelope.hyps(1,3,2,4,5) envelope.prems(3)]
  obtain h where h: "validate_nested (take n (drop m bz)) fieldMessage allow resolver False = (h, None)"
    and f: "h \<Longrightarrow> fst (RejectUnknownFields bz desc allow resolver)"
    by blast
  from validate_nested_envelope_flag [OF envelope.hyps(7,6) h] envelope.IH [OF envelope.prems(1,2)] f
  show ?case by simp
next
  case (payload bz t w m n desc fd fieldMessage v o' a msgDesc d tagNum wireType)
  from loop_known_message_success [OF payload.hyps(1,3,2,4,5) payload.prems(3)]
  obtain h where h: "validate_nested (take n (drop m bz)) fieldMessage allow resolver False = (h, None)"
    and f: "h \<Longrightarrow> fst (RejectUnknownFields bz desc allow resolver)"
    by blast
  from validate_nested_envelope_flag [OF payload.hyps(7,6) h]
  have frame: "snd (RejectUnknownFields (drop o' (take n (drop m bz))) anyDesc allow resolver) = None"
    by simp
  from h validate_nested_payload [OF payload.hyps(7,6) frame payload.hyps(8,9), of False]
  have "snd (RejectUnknownFields (Value a) msgDesc allow resolver) = None"
    and "fst (RejectUnknownFields (Value a) msgDesc allow resolver) \<Longrightarrow> h"
    by simp_all
  with payload.IH [OF payload.prems(1,2)] f show ?case by simp
qed

lemma valid_buffer_accepted:
  assumes "valid_buffer resolver bz desc"
  shows "snd (RejectUnknownFields bz desc True resolver) = None"
  using assms
proof (induction rule: valid_buffer.induct)
  case (empty desc)
  show ?case by (simp add: RejectUnknownFields_eq_loop)
next
  case (noncritical bz t w m n desc)
  from noncritical.hyps(2,4) noncritical.IH show ?case
    by (simp add: RejectUnknownFields_eq_loop [of bz] loop_unknown [OF noncritical.hyps(1,3)]
        bit11NonCritical_1024 loop_error_flag_free)
next
  case (scalar bz t w m n desc fd)
  from scalar.IH show ?case
    by (simp add: RejectUnknownFields_eq_loop [of bz]
        loop_known_scalar [OF scalar.hyps(1,3,2,4,5)] loop_error_flag_free)
next
  case (message bz t w m n desc fd fieldMessage v o')
  from message.IH(1)
  have "validate_nested (take n (drop m bz)) fieldMessage True resolver False =
      (fst (RejectUnknownFields (drop o' (take n (drop m bz))) fieldMessage True resolver), None)"
    by (simp add: validate_nested_message [OF message.hyps(7,6)])
  with message.IH(2) show ?case
    by (simp add: RejectUnknownFields_eq_loop [of bz]
        loop_known_message [OF message.hyps(1,3,2,4,5)] loop_error_flag_free)
next
  case (envelope bz t w m n desc fd fieldMessage v o' a msgDesc)
  from envelope.IH(2)
  have "snd (validate_nested (take n (drop m bz)) fieldMessage True resolver False) = None"
    by (simp add: validate_nested_payload [OF envelope.hyps(7,6) envelope.IH(1) envelope.hyps(9,10)])
  then obtain h where
    "validate_nested (take n (drop m bz)) fieldMessage True resolver False = (h, None)"
    by (cases "validate_nested (take n (drop m bz)) fieldMessage True resolver False") auto
  with envelope.IH(3) show ?case
    by (simp add: RejectUnknownFields_eq_loop [of bz]
        loop_known_message [OF envelope.hyps(1,3,2,4,5)] loop_error_flag_free)
qed

lemma validate_nested_unknown_error:
  assumes IH: "\<And>b d h'. length b \<le> length fb \<Longrightarrow>
      RejectUnknownFields b d allow resolver = (h', Some (ErrUnknownField nm t w)) \<Longrightarrow>
      h' \<and> \<not> allow"
    and v: "validate_nested fb fm allow resolver has = (h, Some (ErrUnknownField nm t w))"
  shows "h \<and> \<not> allow"
proof (cases "ConsumeVarint fb")
  case (Inl e)
  with v show ?thesis by (simp add: validate_nested_def)
next
  case (Inr r)
  then obtain x o' where cv: "ConsumeVarint fb = Inr (x, o')" by (cases r) auto
  let ?inner = "drop o' fb"
  have len: "length ?inner \<le> length fb" by simp
  show ?thesis
  proof (cases "msg_FullName fm = anyFullName")
    case False
    obtain c e where r: "RejectUnknownFields ?inner fm allow resolver = (c, e)"
      by (cases "RejectUnknownFields ?inner fm allow resolver") auto
    with v cv False have "h = (has \<or> c)" "e = Some (ErrUnknownField nm t w)"
      by (simp_all add: validate_nested_def)
    with IH [OF len, of fm c] r show ?thesis by simp
  next
    case True
    obtain c e where r: "RejectUnknownFields ?inner anyDesc allow resolver = (c, e)"
      by (cases "RejectUnknownFields ?inner anyDesc allow resolver") auto
    show ?thesis
    proof (cases e)
      case (Some err)
      with v cv True r have "h = (has \<or> c)" "e = Some (ErrUnknownField nm t w)"
        by (simp_all add: validate_nested_def)
      with IH [OF len, of anyDesc c] r show ?thesis by simp
    next
      case None
      show ?thesis
      proof (cases "Unmarshal_Any ?inner")
        case (Inl ue)
        with v cv True r None show ?thesis by (simp add: validate_nested_def)
      next
        case a: (Inr a)
        have la: "length (Value a) \<le> length fb"
          using Unmarshal_Any_Value [OF a] by simp
        show ?thesis
        proof (cases "resolver (MessageNameFromTypeURL (TypeUrl a))")
          case (Inl re)
          with v cv True r None a show ?thesis by (simp add: validate_nested_def)
        next
          case (Inr dsc)
          show ?thesis
          proof (cases dsc)
            case (OtherDesc x)
            with v cv True r None a Inr show ?thesis by (simp add: validate_nested_def)
          next
            case (MessageDesc md)
            obtain c2 e2 where r2: "RejectUnknownFields (Value a) md allow resolver = (c2, e2)"
              by (cases "RejectUnknownFields (Value a) md allow resolver") auto
            with v cv True r None a Inr MessageDesc
            have "h = ((has \<or> c) \<or> c2)" "e2 = Some (ErrUnknownField nm t w)"
              by (simp_all add: validate_nested_def)
            with IH [OF la, of md c2] r2 show ?thesis by simp
          qed
        qed
      qed
    qed
  qed
qed

lemma loop_unknown_error_flag:
  assumes "RejectUnknownFields_loop bz desc allow resolver has =
      (h, Some (ErrUnknownField nm tagNum wireType))"
    and "tagNum AND 1024 \<noteq> 0"
  shows "h \<and> \<not> allow"
  using assms
proof (induction "length bz" arbitrary: bz desc has h rule: less_induct)
  case less
  note res = less.prems(1) and nc = less.prems(2)
  show ?case
  proof (cases "bz = []")
    case True
    with res show ?thesis by simp
  next
    case ne: False
    show ?thesis
    proof (cases "ConsumeTag bz")
      case (Inl e)
      with ne res show ?thesis by (simp add: loop_tag_error)
    next
      case (Inr r)
      then obtain t w m where tag: "ConsumeTag bz = Inr (t, w, m)" by (cases r) auto
      have m: "0 < m" "m \<le> length bz" using ConsumeTag_bounds [OF tag] by auto
      have shorter: "length (drop n (drop m bz)) < length bz" for n using m by simp
      have IH: "y \<and> \<not> allow" if "RejectUnknownFields_loop (drop n (drop m bz)) desc allow resolver x =
          (y, Some (ErrUnknownField nm tagNum wireType))" for n x y
        using less.hyps [OF shorter that nc] .
      show ?thesis
      proof (cases "ByNumber (msg_Fields desc) t")
        case None
        show ?thesis
        proof (cases "t AND 1024 = 0 \<or> \<not> allow")
          case True
          with res nc show ?thesis
            by (auto simp add: loop_unknown [OF tag None] bit11NonCritical_1024 split: if_splits)
        next
          case False
          show ?thesis
          proof (cases "ConsumeFieldValue t w (drop m bz)")
            case (Inl pe)
            with res False show ?thesis
              by (simp add: loop_unknown [OF tag None] bit11NonCritical_1024)
          next
            case (Inr n)
            with res False
            have "RejectUnknownFields_loop (drop n (drop m bz)) desc allow resolver True =
                (h, Some (ErrUnknownField nm tagNum wireType))"
              by (simp add: loop_unknown [OF tag None] bit11NonCritical_1024)
            from IH [OF this] show ?thesis .
          qed
        qed
      next
        case (Some fd)
        show ?thesis
        proof (cases "ConsumeFieldValue t w (drop m bz)")
          case (Inl pe)
          with res show ?thesis by (simp add: loop_known_error [OF tag Some])
        next
          case (Inr n)
          show ?thesis
          proof (cases "isWireTypeAssignable w (field_Kind fd)")
            case False
            with res show ?thesis by (simp add: loop_known_wire_type [OF tag Some Inr])
          next
            case True
            show ?thesis
            proof (cases "field_Message fd")
              case None
              with res IH [of n has h] show ?thesis
                by (simp add: loop_known_scalar [OF tag Some Inr True None])
            next
              case fm: (Some fm)
              obtain h1 e1 where v: "validate_nested (take n (drop m bz)) fm allow resolver has = (h1, e1)"
                by (cases "validate_nested (take n (drop m bz)) fm allow resolver has") auto
              show ?thesis
              proof (cases e1)
                case None
                with res v IH [of n h1 h] show ?thesis
                  by (simp add: loop_known_message [OF tag Some Inr True fm])
              next
                case (Some err)
                with res v have eq: "h1 = h" "err = ErrUnknownField nm tagNum wireType"
                  by (simp_all add: loop_known_message [OF tag \<open>ByNumber (msg_Fields desc) t = Some fd\<close> Inr True fm])
                have "\<And>b d h'. length b \<le> length (take n (drop m bz)) \<Longrightarrow>
                    RejectUnknownFields b d allow resolver = (h', Some (ErrUnknownField nm tagNum wireType))
                    \<Longrightarrow> h' \<and> \<not> allow"
                proof -
                  fix b d h'
                  assume that: "length b \<le> length (take n (drop m bz))"
                    "RejectUnknownFields b d allow resolver = (h', Some (ErrUnknownField nm tagNum wireType))"
                  have "length b < length bz" using that(1) m by auto
                  from that(2)
                  have "RejectUnknownFields_loop b d allow resolver False =
                      (h', Some (ErrUnknownField nm tagNum wireType))"
                    by (simp add: RejectUnknownFields_eq_loop)
                  from less.hyps [OF \<open>length b < length bz\<close> this nc] show "h' \<and> \<not> allow" .
                qed
                then have inner: "\<And>b d h'. length b \<le> length (take n (drop m bz)) \<Longrightarrow>
                    RejectUnknownFields b d allow resolver = (h', Some (ErrUnknownField nm tagNum wireType))
                    \<Longrightarrow> h' \<and> \<not> allow" .
                have "validate_nested (take n (drop m bz)) fm allow resolver has =
                    (h, Some (ErrUnknownField nm tagNum wireType))"
                  using v Some eq by simp
                with inner show ?thesis by (rule validate_nested_unknown_error)
              qed
            qed
          qed
        qed
      qed
    qed
  qed
qed

lemma box_bytes_occurs:
  "occurs test_resolver [0x0a, 0x03, 0x80, 0x40, 0x01] box_desc leaf_desc 1024 0"
proof (rule occurs.nested)
  show "ConsumeTag [0x0a, 0x03, 0x80, 0x40, 0x01] = Inr (1, 2, 1)" by code_simp
  show "ConsumeFieldValue 1 2 (drop 1 [0x0a, 0x03, 0x80, 0x40, 0x01]) = Inr 4" by code_simp
  show "ByNumber (msg_Fields box_desc) 1 =
      Some (FieldDescriptor 1 ''test.Box.leaf'' MessageKind (Some leaf_desc))"
    by code_simp
  show "isWireTypeAssignable 2
      (field_Kind (FieldDescriptor 1 ''test.Box.leaf'' MessageKind (Some leaf_desc)))"
    by code_simp
  show "field_Message (FieldDescriptor 1 ''test.Box.leaf'' MessageKind (Some leaf_desc)) =
      Some leaf_desc"
    by simp
  show "msg_FullName leaf_desc \<noteq> anyFullName" by code_simp
  show "ConsumeVarint (take 4 (drop 1 [0x0a, 0x03, 0x80, 0x40, 0x01])) = Inr (3, 1)"
    by code_simp
  have "ConsumeTag [0x80, 0x40, 0x01] = Inr (1024, 0, 2)" by code_simp
  then have "occurs test_resolver [0x80, 0x40, 0x01] leaf_desc leaf_desc 1024 0"
    by (rule occurs.here)
  then show "occurs test_resolver (drop 1 (take 4 (drop 1 [0x0a, 0x03, 0x80, 0x40, 0x01])))
      leaf_desc leaf_desc 1024 0"
    by simp
qed

lemma envelope_bytes_occurs: "occurs test_resolver envelope_bytes box_desc leaf_desc 1024 0"
proof (rule occurs.payload)
  show "ConsumeTag envelope_bytes = Inr (2, 2, 1)" by code_simp
  show "ConsumeFieldValue 2 2 (drop 1 envelope_bytes) = Inr 19" by code_simp
  show "ByNumber (msg_Fields box_desc) 2 =
      Some (FieldDescriptor 2 ''test.Box.any'' MessageKind (Some anyDesc))"
    by code_simp
  show "isWireTypeAssignable 2
      (field_Kind (FieldDescriptor 2 ''test.Box.any'' MessageKind (Some anyDesc)))"
    by code_simp
  show "field_Message (FieldDescriptor 2 ''test.Box.any'' MessageKind (Some anyDesc)) =
      Some anyDesc"
    by simp
  show "msg_FullName anyDesc = anyFullName" by code_simp
  show "ConsumeVarint (take 19 (drop 1 envelope_bytes)) = Inr (18, 1)" by code_simp
  show "Unmarshal_Any (drop 1 (take 19 (drop 1 envelope_bytes))) =
      Inr \<lparr>TypeUrl = ''/test.Box'', Value = [0x0a, 0x03, 0x80, 0x40, 0x01]\<rparr>"
    by code_simp
  show "test_resolver (MessageNameFromTypeURL
      (TypeUrl \<lparr>TypeUrl = ''/test.Box'', Value = [0x0a, 0x03, 0x80, 0x40, 0x01]\<rparr>)) =
      Inr (MessageDesc box_desc)"
    by code_simp
  show "occurs test_resolver (Value \<lparr>TypeUrl = ''/test.Box'', Value = [0x0a, 0x03, 0x80, 0x40, 0x01]\<rparr>)
      box_desc leaf_desc 1024 0"
    using box_bytes_occurs by simp
qed

lemma deep_bytes_occurs: "occurs test_resolver deep_bytes box_desc leaf_desc 1024 0"
proof (rule occurs.payload)
  show "ConsumeTag deep_bytes = Inr (2, 2, 1)" by code_simp
  show "ConsumeFieldValue 2 2 (drop 1 deep_bytes) = Inr 34" by code_simp
  show "ByNumber (msg_Fields box_desc) 2 =
      Some (FieldDescriptor 2 ''test.Box.any'' MessageKind (Some anyDesc))"
    by code_simp
  show "isWireTypeAssignable 2
      (field_Kind (FieldDescriptor 2 ''test.Box.any'' MessageKind (Some anyDesc)))"
    by code_simp
  show "field_Message (FieldDescriptor 2 ''test.Box.any'' MessageKind (Some anyDesc)) =
      Some anyDesc"
    by simp
  show "msg_FullName anyDesc = anyFullName" by code_simp
  show "ConsumeVarint (take 34 (drop 1 deep_bytes)) = Inr (33, 1)" by code_simp
  show "Unmarshal_Any (drop 1 (take 34 (drop 1 deep_bytes))) =
      Inr \<lparr>TypeUrl = ''/test.Box'', Value = envelope_bytes\<rparr>"
    by code_simp
  show "test_resolver (MessageNameFromTypeURL
      (TypeUrl \<lparr>TypeUrl = ''/test.Box'', Value = envelope_bytes\<rparr>)) =
      Inr (MessageDesc box_desc)"
    by code_simp
  show "occurs test_resolver (Value \<lparr>TypeUrl = ''/test.Box'', Value = envelope_bytes\<rparr>)
      box_desc leaf_desc 1024 0"
    using envelope_bytes_occurs by simp
qed

lemma any_frame_valid:
  assumes "ConsumeTag b = Inr (1, 2, m)" and "ConsumeFieldValue 1 2 (drop m b) = Inr n"
    and "ConsumeTag (drop n (drop m b)) = Inr (2, 2, m')"
    and "ConsumeFieldValue 2 2 (drop m' (drop n (drop m b))) = Inr n'"
    and "drop n' (drop m' (drop n (drop m b))) = []"
  shows "valid_buffer resolver b anyDesc"
proof (rule valid_buffer.scalar [OF assms(1,2)])
  show "ByNumber (msg_Fields anyDesc) 1 =
      Some (FieldDescriptor 1 ''google.protobuf.Any.type_url'' StringKind None)"
    by code_simp
  show "isWireTypeAssignable 2
      (field_Kind (FieldDescriptor 1 ''google.protobuf.Any.type_url'' StringKind None))"
    by code_simp
  show "field_Message (FieldDescriptor 1 ''google.protobuf.Any.type_url'' StringKind None) = None"
    by simp
  show "valid_buffer resolver (drop n (drop m b)) anyDesc"
  proof (rule valid_buffer.scalar [OF assms(3,4)])
    show "ByNumber (msg_Fields anyDesc) 2 =
        Some (FieldDescriptor 2 ''google.protobuf.Any.value'' BytesKind None)"
      by code_simp
    show "isWireTypeAssignable 2
        (field_Kind (FieldDescriptor 2 ''google.protobuf.Any.value'' BytesKind None))"
      by code_simp
    show "field_Message (FieldDescriptor 2 ''google.protobuf.Any.value'' BytesKind None) = None"
      by simp
    show "valid_buffer resolver (drop n' (drop m' (drop n (drop m b)))) anyDesc"
      unfolding assms(5) by (rule valid_buffer.empty)
  qed
qed

lemma box_bytes_valid: "valid_buffer test_resolver [0x0a, 0x03, 0x80, 0x40, 0x01] box_desc"
proof (rule valid_buffer.message)
  show "ConsumeTag [0x0a, 0x03, 0x80, 0x40, 0x01] = Inr (1, 2, 1)" by code_simp
  show "ConsumeFieldValue 1 2 (drop 1 [0x0a, 0x03, 0x80, 0x40, 0x01]) = Inr 4" by code_simp
  show "ByNumber (msg_Fields box_desc) 1 =
      Some (FieldDescriptor 1 ''test.Box.leaf'' MessageKind (Some leaf_desc))"
    by code_simp
  show "isWireTypeAssignable 2
      (field_Kind (FieldDescriptor 1 ''test.Box.leaf'' MessageKind (Some leaf_desc)))"
    by code_simp
  show "field_Message (FieldDescriptor 1 ''test.Box.leaf'' MessageKind (Some leaf_desc)) =
      Some leaf_desc"
    by simp
  show "msg_FullName leaf_desc \<noteq> anyFullName" by code_simp
  show "ConsumeVarint (take 4 (drop 1 [0x0a, 0x03, 0x80, 0x40, 0x01])) = Inr (3, 1)"
    by code_simp
  have "valid_buffer test_resolver [0x80, 0x40, 0x01] leaf_desc"
  proof (rule valid_buffer.noncritical)
    show "ConsumeTag [0x80, 0x40, 0x01] = Inr (1024, 0, 2)" by code_simp
    show "ConsumeFieldValue 1024 0 (drop 2 [0x80, 0x40, 0x01]) = Inr 1" by code_simp
    show "ByNumber (msg_Fields leaf_desc) 1024 = None" by code_simp
    show "(1024 :: Number) AND 1024 \<noteq> 0" by simp
    show "valid_buffer test_resolver (drop 1 (drop 2 [0x80, 0x40, 0x01])) leaf_desc"
      by (simp add: valid_buffer.empty)
  qed
  then show "valid_buffer test_resolver
      (drop 1 (take 4 (drop 1 [0x0a, 0x03, 0x80, 0x40, 0x01]))) leaf_desc"
    by simp
  show "valid_buffer test_resolver (drop 4 (drop 1 [0x0a, 0x03, 0x80, 0x40, 0x01])) box_desc"
    by (simp add: valid_buffer.empty)
qed

lemma envelope_bytes_valid: "valid_buffer test_resolver envelope_bytes box_desc"
proof (rule valid_buffer.envelope)
  show "ConsumeTag envelope_bytes = Inr (2, 2, 1)" by code_simp
  show "ConsumeFieldValue 2 2 (drop 1 envelope_bytes) = Inr 19" by code_simp
  show "ByNumber (msg_Fields box_desc) 2 =
      Some (FieldDescriptor 2 ''test.Box.any'' MessageKind (Some anyDesc))"
    by code_simp
  show "isWireTypeAssignable 2
      (field_Kind (FieldDescriptor 2 ''test.Box.any'' MessageKind (Some anyDesc)))"
    by code_simp
  show "field_Message (FieldDescriptor 2 ''test.Box.any'' MessageKind (Some anyDesc)) =
      Some anyDesc"
    by simp
  show "msg_FullName anyDesc = anyFullName" by code_simp
  show "ConsumeVarint (take 19 (drop 1 envelope_bytes)) = Inr (18, 1)" by code_simp
  show "valid_buffer test_resolver (drop 1 (take 19 (drop 1 envelope_bytes))) anyDesc"
  proof (rule any_frame_valid)
    show "ConsumeTag (drop 1 (take 19 (drop 1 envelope_bytes))) = Inr (1, 2, 1)"
      by code_simp
    show "ConsumeFieldValue 1 2 (drop 1 (drop 1 (take 19 (drop 1 envelope_bytes)))) = Inr 10"
      by code_simp
    show "ConsumeTag (drop 10 (drop 1 (drop 1 (take 19 (drop 1 envelope_bytes))))) =
        Inr (2, 2, 1)"
      by code_simp
    show "ConsumeFieldValue 2 2
        (drop 1 (drop 10 (drop 1 (drop 1 (take 19 (drop 1 envelope_bytes)))))) = Inr 6"
      by code_simp
    show "drop 6 (drop 1 (drop 10 (drop 1 (drop 1 (take 19 (drop 1 envelope_bytes)))))) = []"
      by code_simp
  qed
  show "Unmarshal_Any (drop 1 (take 19 (drop 1 envelope_bytes))) =
      Inr \<lparr>TypeUrl = ''/test.Box'', Value = [0x0a, 0x03, 0x80, 0x40, 0x01]\<rparr>"
    by code_simp
  show "test_resolver (MessageNameFromTypeURL
      (TypeUrl \<lparr>TypeUrl = ''/test.Box'', Value = [0x0a, 0x03, 0x80, 0x40, 0x01]\<rparr>)) =
      Inr (MessageDesc box_desc)"
    by code_simp
  show "valid_buffer test_resolver
      (Value \<lparr>TypeUrl = ''/test.Box'', Value = [0x0a, 0x03, 0x80, 0x40, 0x01]\<rparr>) box_desc"
    using box_bytes_valid by simp
  show "valid_buffer test_resolver (drop 19 (drop 1 envelope_bytes)) box_desc"
    by (simp add: envelope_bytes_def valid_buffer.empty)
qed

lemma deep_bytes_valid: "valid_buffer test_resolver deep_bytes box_desc"
proof (rule valid_buffer.envelope)
  show "ConsumeTag deep_bytes = Inr (2, 2, 1)" by code_simp
  show "ConsumeFieldValue 2 2 (drop 1 deep_bytes) = Inr 34" by code_simp
  show "ByNumber (msg_Fields box_desc) 2 =
      Some (FieldDescriptor 2 ''test.Box.any'' MessageKind (Some anyDesc))"
    by code_simp
  show "isWireTypeAssignable 2
      (field_Kind (FieldDescriptor 2 ''test.Box.any'' MessageKind (Some anyDesc)))"
    by code_simp
  show "field_Message (FieldDescriptor 2 ''test.Box.any'' MessageKind (Some anyDesc)) =
      Some anyDesc"
    by simp
  show "msg_FullName anyDesc = anyFullName" by code_simp
  show "ConsumeVarint (take 34 (drop 1 deep_bytes)) = Inr (33, 1)" by code_simp
  show "valid_buffer test_resolver (drop 1 (take 34 (drop 1 deep_bytes))) anyDesc"
  proof (rule any_frame_valid)
    show "ConsumeTag (drop 1 (take 34 (drop 1 deep_bytes))) = Inr (1, 2, 1)"
      by code_simp
    show "ConsumeFieldValue 1 2 (drop 1 (drop 1 (take 34 (drop 1 deep_bytes)))) = Inr 10"
      by code_simp
    show "ConsumeTag (drop 10 (drop 1 (drop 1 (take 34 (drop 1 deep_bytes))))) =
        Inr (2, 2, 1)"
      by code_simp
    show "ConsumeFieldValue 2 2
        (drop 1 (drop 10 (drop 1 (drop 1 (take 34 (drop 1 deep_bytes)))))) = Inr 21"
      by code_simp
    show "drop 21 (drop 1 (drop 10 (drop 1 (drop 1 (take 34 (drop 1 deep_bytes)))))) = []"
      by code_simp
  qed
  show "Unmarshal_Any (drop 1 (take 34 (drop 1 deep_bytes))) =
      Inr \<lparr>TypeUrl = ''/test.Box'', Value = envelope_bytes\<rparr>"
    by code_simp
  show "test_resolver (MessageNameFromTypeURL
      (TypeUrl \<lparr>TypeUrl = ''/test.Box'', Value = envelope_bytes\<rparr>)) =
      Inr (MessageDesc box_desc)"
    by code_simp
  show "valid_buffer test_resolver (Value \<lparr>TypeUrl = ''/test.Box'', Value = envelope_bytes\<rparr>)
      box_desc"
    using envelope_bytes_valid by simp
  show "valid_buffer test_resolver (drop 34 (drop 1 deep_bytes)) box_desc"
    by (simp add: deep_bytes_def valid_buffer.empty)
qed

lemma nested_critical_occurs:
  "occurs test_resolver [0x0a, 0x02, 0x18, 0x01] box_desc leaf_desc 3 0"
proof (rule occurs.nested)
  show "ConsumeTag [0x0a, 0x02, 0x18, 0x01] = Inr (1, 2, 1)" by code_simp
  show "ConsumeFieldValue 1 2 (drop 1 [0x0a, 0x02, 0x18, 0x01]) = Inr 3" by code_simp
  show "ByNumber (msg_Fields box_desc) 1 =
      Some (FieldDescriptor 1 ''test.Box.leaf'' MessageKind (Some leaf_desc))"
    by code_simp
  show "isWireTypeAssignable 2
      (field_Kind (FieldDescriptor 1 ''test.Box.leaf'' MessageKind (Some leaf_desc)))"
    by code_simp
  show "field_Message (FieldDescriptor 1 ''test.Box.leaf'' MessageKind (Some leaf_desc)) =
      Some leaf_desc"
    by simp
  show "msg_FullName leaf_desc \<noteq> anyFullName" by code_simp
  show "ConsumeVarint (take 3 (drop 1 [0x0a, 0x02, 0x18, 0x01])) = Inr (2, 1)" by code_simp
  have "ConsumeTag [0x18, 0x01] = Inr (3, 0, 1)" by code_simp
  then have "occurs test_resolver [0x18, 0x01] leaf_desc leaf_desc 3 0" by (rule occurs.here)
  then show "occurs test_resolver (drop 1 (take 3 (drop 1 [0x0a, 0x02, 0x18, 0x01])))
      leaf_desc leaf_desc 3 0"
    by simp
qed

section \<open>Lemmas on the JSON library of the examples\<close>

lemma plain_quote: "plain b \<Longrightarrow> b \<noteq> 0x22"
  by (simp add: plain_def)

lemma scan_key:
  "list_all plain s \<Longrightarrow>
     scan (InKey k) ps (s @ 0x22 # rest) = scan (Colon (rev k @ s)) ps rest"
  by (induction s arbitrary: k) (simp_all add: plain_quote)

lemma scan_val:
  "list_all plain s \<Longrightarrow>
     scan (InVal k v) ps (s @ 0x22 # rest) = scan After ((k, rev v @ s) # ps) rest"
  by (induction s arbitrary: v) (simp_all add: plain_quote)

lemma scan_member:
  assumes "plain_pair p"
  shows "scan (InKey []) ps (fst p @ [0x22, 0x3a, 0x22] @ snd p @ 0x22 # rest) =
     scan After (p # ps) rest"
proof -
  from assms have k: "list_all plain (fst p)" and v: "list_all plain (snd p)"
    by (simp_all add: plain_pair_def)
  have "scan (InKey []) ps (fst p @ 0x22 # 0x3a # 0x22 # snd p @ 0x22 # rest) =
      scan (InVal (fst p) []) ps (snd p @ 0x22 # rest)"
    by (simp add: scan_key [OF k])
  also have "\<dots> = scan After ((fst p, snd p) # ps) rest"
    by (simp add: scan_val [OF v])
  finally show ?thesis by simp
qed

lemma scan_members:
  "list_all plain_pair c \<Longrightarrow> scan After ps (members_text c) = Some (rev ps @ c)"
proof (induction c arbitrary: ps)
  case Nil
  show ?case by simp
next
  case (Cons p c)
  then have p: "plain_pair p" and c: "list_all plain_pair c" by simp_all
  have "scan After ps (members_text (p # c)) =
      scan (InKey []) ps (fst p @ [0x22, 0x3a, 0x22] @ snd p @ 0x22 # members_text c)"
    by (simp add: member_text_def)
  also have "\<dots> = scan After (p # ps) (members_text c)"
    by (rule scan_member [OF p])
  also have "\<dots> = Some (rev ps @ p # c)"
    by (simp add: Cons.IH [OF c])
  finally show ?case .
qed

lemma scan_object:
  assumes "list_all plain_pair c"
  shows "scan Start [] (object_text c) = Some c"
proof (cases c)
  case Nil
  then show ?thesis by (simp add: object_text_def)
next
  case (Cons p ps)
  with assms have p: "plain_pair p" and ps: "list_all plain_pair ps" by simp_all
  have "scan Start [] (object_text c) =
      scan (InKey []) [] (fst p @ [0x22, 0x3a, 0x22] @ snd p @ 0x22 # members_text ps)"
    by (simp add: Cons object_text_def member_text_def)
  also have "\<dots> = scan After [p] (members_text ps)"
    by (rule scan_member [OF p])
  also have "\<dots> = Some c"
    by (simp add: scan_members [OF ps] Cons)
  finally show ?thesis .
qed

lemma scan_plain:
  "scan st ps x = Some c \<Longrightarrow> plain_state st \<Longrightarrow> list_all plain_pair ps
     \<Longrightarrow> list_all plain_pair c"
proof (induction x arbitrary: st ps)
  case Nil
  then show ?case by (auto simp add: list_all_iff split: if_splits)
next
  case (Cons b x)
  from Cons.prems show ?case
    by (cases st) (auto simp add: plain_pair_def split: if_splits dest!: Cons.IH)
qed

lemma upsert_keys: "set (map fst (upsert p c)) = insert (fst p) (set (map fst c))"
  by (induction c) auto

lemma upsert_sorted:
  "sorted_wrt (<) (map fst c) \<Longrightarrow> sorted_wrt (<) (map fst (upsert p c))"
proof (induction c)
  case Nil
  show ?case by simp
next
  case (Cons q c)
  then show ?case
    using upsert_keys [of p c] by (auto simp add: not_less)
qed

lemma fold_upsert_sorted:
  "sorted_wrt (<) (map fst acc) \<Longrightarrow> sorted_wrt (<) (map fst (fold upsert ps acc))"
  by (induction ps arbitrary: acc) (simp_all add: upsert_sorted)

lemma upsert_plain:
  "plain_pair p \<Longrightarrow> list_all plain_pair c \<Longrightarrow> list_all plain_pair (upsert p c)"
  by (induction c) simp_all

lemma fold_upsert_plain:
  "list_all plain_pair ps \<Longrightarrow> list_all plain_pair acc
     \<Longrightarrow> list_all plain_pair (fold upsert ps acc)"
  by (induction ps arbitrary: acc) (simp_all add: upsert_plain)

lemma upsert_last:
  "sorted_wrt (<) (map fst (acc @ [p])) \<Longrightarrow> upsert p acc = acc @ [p]"
  by (induction acc) (auto simp add: sorted_wrt_append)

lemma fold_upsert_id:
  "sorted_wrt (<) (map fst (acc @ c)) \<Longrightarrow> fold upsert c acc = acc @ c"
proof (induction c arbitrary: acc)
  case Nil
  show ?case by simp
next
  case (Cons p c)
  from Cons.prems have "sorted_wrt (<) (map fst (acc @ [p]))"
    by (simp add: sorted_wrt_append)
  then have "upsert p acc = acc @ [p]" by (rule upsert_last)
  moreover from Cons.prems have "sorted_wrt (<) (map fst ((acc @ [p]) @ c))" by simp
  ultimately show ?case using Cons.IH [of "acc @ [p]"] by simp
qed

lemma flat_json_round_trip: "json_round_trip flat_json"
  unfolding json_round_trip_def
proof (intro allI impI)
  fix x c js
  assume dec: "json_Unmarshal flat_json x = Inr c" and enc: "json_Marshal flat_json c = Inr js"
  from dec obtain ps where ps: "scan Start [] x = Some ps" and c: "c = fold upsert ps []"
    by (auto simp add: flat_json_def split: option.splits)
  from scan_plain [OF ps] have "list_all plain_pair ps" by simp
  then have plain: "list_all plain_pair c"
    unfolding c by (rule fold_upsert_plain) simp
  have "sorted_wrt (<) (map fst c)"
    unfolding c by (rule fold_upsert_sorted) simp
  then have same: "fold upsert c [] = c"
    using fold_upsert_id [of "[]" c] by simp
  from enc have "js = object_text c" by (simp add: flat_json_def)
  with scan_object [OF plain] same show "json_Unmarshal flat_json js = Inr c"
    by (simp add: flat_json_def)
qed

section \<open>Unknown fields and the criticality bit\<close>

text \<open>
  C1. At any iteration of the loop (any flag \<open>has\<close> accumulated so far), let the next tag
  carry a field number that the descriptor does not have. If bit 1024 of the number is clear
  the field is critical and the call returns the unknown-field error at once, whatever
  \<open>allow\<close> is. If the bit is set the field is non-critical and the flag is recorded: the
  call returns the unknown-field error when \<open>allow\<close> is false, and otherwise skips the
  value by the length \<open>ConsumeFieldValue\<close> computes and continues, so that its error is
  that of validating the bytes after the value (a value whose length cannot be computed is
  the malformed-encoding error).
\<close>

theorem unknown_field_classified_by_bit_1024:
  assumes "ConsumeTag bz = Inr (tagNum, wireType, m)"
    and "ByNumber (msg_Fields desc) tagNum = None"
  shows "RejectUnknownFields_loop bz desc allow resolver has =
     (if tagNum AND 1024 = 0 then
        (has, Some (ErrUnknownField (msg_FullName desc) tagNum wireType))
      else if \<not> allow then
        (True, Some (ErrUnknownField (msg_FullName desc) tagNum wireType))
      else
        (case ConsumeFieldValue tagNum wireType (drop m bz) of
           Inl pe \<Rightarrow> (True, Some (ErrConsumeFieldValue tagNum wireType pe))
         | Inr n \<Rightarrow> (True, snd (RejectUnknownFields (drop (m + n) bz) desc allow resolver))))"
proof -
  have "RejectUnknownFields_loop (drop n (drop m bz)) desc a resolver True =
      (True, snd (RejectUnknownFields (drop (m + n) bz) desc a resolver))" for n a
    by (subst loop_flag) (simp add: RejectUnknownFields_eq_loop add.commute)
  then show ?thesis
    by (simp add: loop_unknown [OF assms] bit11NonCritical_1024 split: sum.splits)
qed

theorem unknown_field_classified_by_bit_1024_witness:
  "ConsumeTag [0x80, 0x40, 0x01, 0x10, 0x01] = Inr (1024, 0, 2)
   \<and> ByNumber (msg_Fields example_desc) 1024 = None
   \<and> RejectUnknownFields_loop [0x80, 0x40, 0x01, 0x10, 0x01] example_desc True
        test_resolver False = (True, Some (ErrUnknownField ''T'' 2 0))
   \<and> RejectUnknownFields_loop [0x80, 0x40, 0x01, 0x10, 0x01] example_desc False
        test_resolver False = (True, Some (ErrUnknownField ''T'' 1024 0))"
proof -
  have tag: "ConsumeTag [0x80, 0x40, 0x01, 0x10, 0x01] = Inr (1024, 0, 2)"
    by code_simp
  have unknown: "ByNumber (msg_Fields example_desc) 1024 = None"
    by code_simp
  have skip: "ConsumeFieldValue 1024 0 [0x01, 0x10, 0x01] = Inr 1"
    by code_simp
  have rest: "RejectUnknownFields [0x10, 0x01] example_desc True test_resolver =
      (False, Some (ErrUnknownField ''T'' 2 0))"
    by code_simp
  have name: "msg_FullName example_desc = ''T''"
    by code_simp
  show ?thesis
    using tag unknown
      unknown_field_classified_by_bit_1024 [OF tag unknown, of True test_resolver False]
      unknown_field_classified_by_bit_1024 [OF tag unknown, of False test_resolver False]
    by (simp add: skip rest name)
qed

text \<open>
  C2, as the spec states it, fails, twice over. The first buffer below is the single field 2
  (a varint), a number that the descriptor \<open>T\<close> does not have and whose bit 1024 is clear:
  nothing else is in the buffer, and the permissive variant returns the unknown-field error.
  A number with the bit clear is critical, so the sentence can only hold of numbers with the
  bit set. The second buffer holds the unknown field 1024, whose bit is set, and after it
  the unknown field 2: the permissive variant fails there as well, so the sentence can only
  hold of buffers that are valid apart from their non-critical unknown fields.
\<close>

theorem noncritical_unknown_counterexample:
  "ConsumeTag [0x10, 0x01] = Inr (2, 0, 1)
   \<and> ByNumber (msg_Fields example_desc) 2 = None
   \<and> (2 :: int) AND 1024 = 0
   \<and> RejectUnknownFields [0x10, 0x01] example_desc True test_resolver =
       (False, Some (ErrUnknownField ''T'' 2 0))
   \<and> ConsumeTag [0x80, 0x40, 0x01, 0x10, 0x01] = Inr (1024, 0, 2)
   \<and> ByNumber (msg_Fields example_desc) 1024 = None
   \<and> (1024 :: int) AND 1024 \<noteq> 0
   \<and> RejectUnknownFields [0x80, 0x40, 0x01, 0x10, 0x01] example_desc True test_resolver =
       (True, Some (ErrUnknownField ''T'' 2 0))"
  by code_simp

text \<open>
  C2, amended. Let a field number that its descriptor does not have, with bit 1024 set (a
  non-critical field), occur anywhere in the buffer. Then the strict variant fails. If the
  buffer is valid otherwise (\<open>valid_buffer\<close>: every field can be parsed, every known field
  has a wire type its kind takes, every unknown field is non-critical, and so on inside
  nested messages and envelopes, whose type URLs resolve), the permissive variant succeeds
  and reports the flag.
\<close>

theorem noncritical_unknown_strict_fails_permissive_succeeds:
  assumes "occurs resolver bz desc d tagNum wireType"
    and "ByNumber (msg_Fields d) tagNum = None"
    and "tagNum AND 1024 \<noteq> 0"
  shows "RejectUnknownFieldsStrict bz desc resolver \<noteq> None
    \<and> (valid_buffer resolver bz desc \<longrightarrow>
          RejectUnknownFields bz desc True resolver = (True, None))"
proof (intro conjI impI)
  have "rejected d tagNum wireType False"
    using assms(2) by (simp add: rejected_def)
  from occurs_rejected [OF assms(1) this]
  show "RejectUnknownFieldsStrict bz desc resolver \<noteq> None"
    by (simp add: RejectUnknownFieldsStrict_def)
next
  assume "valid_buffer resolver bz desc"
  then have ok: "snd (RejectUnknownFields bz desc True resolver) = None"
    by (rule valid_buffer_accepted)
  from occurs_flag [OF assms ok] ok
  show "RejectUnknownFields bz desc True resolver = (True, None)"
    by (simp add: prod_eq_iff)
qed

theorem noncritical_unknown_strict_fails_permissive_succeeds_witness:
  "occurs test_resolver envelope_bytes box_desc leaf_desc 1024 0
   \<and> ByNumber (msg_Fields leaf_desc) 1024 = None
   \<and> (1024 :: int) AND 1024 \<noteq> 0
   \<and> valid_buffer test_resolver envelope_bytes box_desc
   \<and> RejectUnknownFieldsStrict envelope_bytes box_desc test_resolver \<noteq> None
   \<and> RejectUnknownFields envelope_bytes box_desc True test_resolver = (True, None)"
proof -
  have unknown: "ByNumber (msg_Fields leaf_desc) 1024 = None" by code_simp
  have bit: "(1024 :: int) AND 1024 \<noteq> 0" by simp
  from noncritical_unknown_strict_fails_permissive_succeeds
    [OF envelope_bytes_occurs unknown bit] envelope_bytes_valid
    envelope_bytes_occurs unknown bit
  show ?thesis by simp
qed

text \<open>
  C3, as the spec states it, fails: the criticality bit of the spec's data model is bit
  1024, and a number with that bit set is non-critical. The buffer below is the single
  unknown field 1024; the permissive variant accepts it.
\<close>

theorem critical_unknown_counterexample:
  "ConsumeTag [0x80, 0x40, 0x01] = Inr (1024, 0, 2)
   \<and> ConsumeFieldValue 1024 0 (drop 2 [0x80, 0x40, 0x01]) = Inr 1
   \<and> ByNumber (msg_Fields example_desc) 1024 = None
   \<and> (1024 :: int) AND 1024 \<noteq> 0
   \<and> RejectUnknownFields [0x80, 0x40, 0x01] example_desc True test_resolver = (True, None)"
  by code_simp

text \<open>
  C3, amended. A field number that its descriptor does not have, with bit 1024 clear (a
  critical field), fails under both variants, wherever in the buffer it occurs. With the bit
  set it fails under the strict variant only: the permissive variant returns no error when
  the buffer is valid otherwise.
\<close>

theorem critical_unknown_fails_both_variants:
  assumes "occurs resolver bz desc d tagNum wireType"
    and "ByNumber (msg_Fields d) tagNum = None"
  shows "(tagNum AND 1024 = 0 \<longrightarrow>
            RejectUnknownFieldsStrict bz desc resolver \<noteq> None
            \<and> snd (RejectUnknownFields bz desc True resolver) \<noteq> None)
    \<and> (tagNum AND 1024 \<noteq> 0 \<longrightarrow>
            RejectUnknownFieldsStrict bz desc resolver \<noteq> None
            \<and> (valid_buffer resolver bz desc \<longrightarrow>
                  snd (RejectUnknownFields bz desc True resolver) = None))"
proof (intro conjI impI)
  assume "tagNum AND 1024 = 0"
  then have "rejected d tagNum wireType allow" for allow
    using assms(2) by (simp add: rejected_def)
  from occurs_rejected [OF assms(1) this]
  show "RejectUnknownFieldsStrict bz desc resolver \<noteq> None"
    and "snd (RejectUnknownFields bz desc True resolver) \<noteq> None"
    by (simp_all add: RejectUnknownFieldsStrict_def)
next
  have "rejected d tagNum wireType False"
    using assms(2) by (simp add: rejected_def)
  from occurs_rejected [OF assms(1) this]
  show "RejectUnknownFieldsStrict bz desc resolver \<noteq> None"
    by (simp add: RejectUnknownFieldsStrict_def)
next
  assume "valid_buffer resolver bz desc"
  then show "snd (RejectUnknownFields bz desc True resolver) = None"
    by (rule valid_buffer_accepted)
qed

theorem critical_unknown_fails_both_variants_witness:
  "occurs test_resolver [0x0a, 0x02, 0x18, 0x01] box_desc leaf_desc 3 0
   \<and> ByNumber (msg_Fields leaf_desc) 3 = None
   \<and> (3 :: int) AND 1024 = 0
   \<and> RejectUnknownFieldsStrict [0x0a, 0x02, 0x18, 0x01] box_desc test_resolver \<noteq> None
   \<and> snd (RejectUnknownFields [0x0a, 0x02, 0x18, 0x01] box_desc True test_resolver) \<noteq> None
   \<and> occurs test_resolver [0x0a, 0x03, 0x80, 0x40, 0x01] box_desc leaf_desc 1024 0
   \<and> ByNumber (msg_Fields leaf_desc) 1024 = None
   \<and> (1024 :: int) AND 1024 \<noteq> 0
   \<and> valid_buffer test_resolver [0x0a, 0x03, 0x80, 0x40, 0x01] box_desc
   \<and> RejectUnknownFieldsStrict [0x0a, 0x03, 0x80, 0x40, 0x01] box_desc test_resolver \<noteq> None
   \<and> snd (RejectUnknownFields [0x0a, 0x03, 0x80, 0x40, 0x01] box_desc True test_resolver) = None"
proof -
  have unknown: "ByNumber (msg_Fields leaf_desc) 3 = None" by code_simp
  have bit: "(3 :: int) AND 1024 = 0" by simp
  have unknown': "ByNumber (msg_Fields leaf_desc) 1024 = None" by code_simp
  have bit': "(1024 :: int) AND 1024 \<noteq> 0" by simp
  from critical_unknown_fails_both_variants [OF nested_critical_occurs unknown]
    critical_unknown_fails_both_variants [OF box_bytes_occurs unknown']
    nested_critical_occurs unknown bit box_bytes_occurs unknown' bit' box_bytes_valid
  show ?thesis by simp
qed

section \<open>Wire types\<close>

text \<open>
  C4. Let a field number that its descriptor has occur anywhere in the buffer with a wire
  type that \<open>isWireTypeAssignable\<close> refuses for the field's kind. Then validation fails
  under both variants; nothing is asked of bit 1024 of the number.
\<close>

theorem incompatible_wire_type_fails_both_variants:
  assumes "occurs resolver bz desc d tagNum wireType"
    and "ByNumber (msg_Fields d) tagNum = Some fd"
    and "\<not> isWireTypeAssignable wireType (field_Kind fd)"
  shows "RejectUnknownFieldsStrict bz desc resolver \<noteq> None
    \<and> snd (RejectUnknownFields bz desc True resolver) \<noteq> None"
proof -
  have "rejected d tagNum wireType allow" for allow
    using assms(2,3) by (simp add: rejected_def)
  from occurs_rejected [OF assms(1) this] show ?thesis
    by (simp add: RejectUnknownFieldsStrict_def)
qed

theorem incompatible_wire_type_fails_both_variants_witness:
  "occurs test_resolver [0x99, 0x40, 1, 2, 3, 4, 5, 6, 7, 8] box_desc box_desc 1027 1
   \<and> ByNumber (msg_Fields box_desc) 1027 =
       Some (FieldDescriptor 1027 ''test.Box.note'' StringKind None)
   \<and> \<not> isWireTypeAssignable 1
         (field_Kind (FieldDescriptor 1027 ''test.Box.note'' StringKind None))
   \<and> (1027 :: int) AND 1024 \<noteq> 0
   \<and> RejectUnknownFieldsStrict [0x99, 0x40, 1, 2, 3, 4, 5, 6, 7, 8] box_desc test_resolver \<noteq> None
   \<and> snd (RejectUnknownFields [0x99, 0x40, 1, 2, 3, 4, 5, 6, 7, 8] box_desc True test_resolver)
       \<noteq> None"
proof -
  have "ConsumeTag [0x99, 0x40, 1, 2, 3, 4, 5, 6, 7, 8] = Inr (1027, 1, 2)" by code_simp
  then have occ: "occurs test_resolver [0x99, 0x40, 1, 2, 3, 4, 5, 6, 7, 8] box_desc box_desc 1027 1"
    by (rule occurs.here)
  have known: "ByNumber (msg_Fields box_desc) 1027 =
      Some (FieldDescriptor 1027 ''test.Box.note'' StringKind None)"
    by code_simp
  have wrong: "\<not> isWireTypeAssignable 1
      (field_Kind (FieldDescriptor 1027 ''test.Box.note'' StringKind None))"
    by code_simp
  have bit: "(1027 :: int) AND 1024 \<noteq> 0" by simp
  from incompatible_wire_type_fails_both_variants [OF occ known wrong] occ known wrong bit
  show ?thesis by simp
qed

section \<open>The flag of nested fields\<close>

text \<open>
  C5. Let an unknown field with bit 1024 set occur anywhere in the buffer, at any depth of
  nested messages and of envelopes, and let the buffer be valid otherwise (\<open>valid_buffer\<close>:
  at every depth the fields can be parsed, the known ones have a wire type their kind takes,
  the unknown ones are non-critical, and the envelopes decode and their type URLs resolve).
  Then validation with \<open>allow = True\<close> succeeds and the root call returns the flag: the
  result is \<open>(True, None)\<close>.
\<close>

theorem nested_noncritical_flag_reaches_root:
  assumes "occurs resolver bz desc d tagNum wireType"
    and "ByNumber (msg_Fields d) tagNum = None"
    and "tagNum AND 1024 \<noteq> 0"
    and "valid_buffer resolver bz desc"
  shows "RejectUnknownFields bz desc True resolver = (True, None)"
proof -
  from assms(4) have ok: "snd (RejectUnknownFields bz desc True resolver) = None"
    by (rule valid_buffer_accepted)
  from occurs_flag [OF assms(1,2,3) ok] ok show ?thesis
    by (simp add: prod_eq_iff)
qed

theorem nested_noncritical_flag_reaches_root_witness:
  "occurs test_resolver deep_bytes box_desc leaf_desc 1024 0
   \<and> ByNumber (msg_Fields leaf_desc) 1024 = None
   \<and> (1024 :: int) AND 1024 \<noteq> 0
   \<and> valid_buffer test_resolver deep_bytes box_desc
   \<and> RejectUnknownFields deep_bytes box_desc True test_resolver = (True, None)"
proof -
  have unknown: "ByNumber (msg_Fields leaf_desc) 1024 = None" by code_simp
  have bit: "(1024 :: int) AND 1024 \<noteq> 0" by simp
  from nested_noncritical_flag_reaches_root [OF deep_bytes_occurs unknown bit deep_bytes_valid]
    deep_bytes_occurs unknown bit deep_bytes_valid
  show ?thesis by simp
qed

text \<open>
  C10. When the strict walk returns the unknown-field error for a number with bit 1024 set,
  wherever the field lies, the flag returned beside the error is true.
\<close>

theorem noncritical_rejection_reports_flag:
  assumes "snd (RejectUnknownFields bz desc False resolver) =
      Some (ErrUnknownField name tagNum wireType)"
    and "tagNum AND 1024 \<noteq> 0"
  shows "fst (RejectUnknownFields bz desc False resolver)"
proof -
  from assms(1) have "RejectUnknownFields_loop bz desc False resolver False =
      (fst (RejectUnknownFields bz desc False resolver), Some (ErrUnknownField name tagNum wireType))"
    by (simp add: RejectUnknownFields_eq_loop prod_eq_iff)
  from loop_unknown_error_flag [OF this assms(2)] show ?thesis by simp
qed

theorem noncritical_rejection_reports_flag_witness:
  "snd (RejectUnknownFields deep_bytes box_desc False test_resolver) =
     Some (ErrUnknownField ''test.Leaf'' 1024 0)
   \<and> (1024 :: int) AND 1024 \<noteq> 0
   \<and> fst (RejectUnknownFields deep_bytes box_desc False test_resolver)"
proof -
  have err: "snd (RejectUnknownFields deep_bytes box_desc False test_resolver) =
      Some (ErrUnknownField ''test.Leaf'' 1024 0)"
    by code_simp
  have bit: "(1024 :: int) AND 1024 \<noteq> 0" by simp
  from noncritical_rejection_reports_flag [OF err bit] err bit show ?thesis by simp
qed

section \<open>Termination\<close>

lemma calls_decrease:
  assumes "calls caller callee"
  shows "call_size callee < call_size caller
    \<and> (case (caller, callee) of
          (Inl (bz, c), Inr (bz', c')) \<Rightarrow> bz' = bz \<and> bz \<noteq> []
        | (Inr (bz, c), Inr (bz', c')) \<Rightarrow> length bz' < length bz
        | (Inr (bz, c), Inl (bz', c')) \<Rightarrow> length bz' < length bz
        | (Inl (bz, c), Inl (bz', c')) \<Rightarrow> False)"
  using assms unfolding calls_def
  by (cases rule: RejectUnknownFields_RejectUnknownFields_loop_rel.cases)
     (auto simp add: call_size_def dest!: ConsumeTag_bounds Unmarshal_Any_Value)

text \<open>
  C9. \<open>RejectUnknownFields\<close> and its loop are total functions: their definition is accepted
  with a termination proof. The calls are well-founded, so that no call starts an infinite
  chain of calls, and every call made is on less input: \<open>call_size\<close>, at most twice the
  length of the buffer plus one, falls with each call. An entry into the function starts the
  loop on its own non-empty buffer; an iteration of the loop continues on a strictly shorter
  buffer and makes its nested calls on strictly shorter buffers.
\<close>

theorem every_call_terminates:
  "wf {(callee, caller). calls caller callee}
   \<and> (\<forall>caller callee. calls caller callee \<longrightarrow>
         call_size callee < call_size caller
         \<and> (case (caller, callee) of
               (Inl (bz, c), Inr (bz', c')) \<Rightarrow> bz' = bz \<and> bz \<noteq> []
             | (Inr (bz, c), Inr (bz', c')) \<Rightarrow> length bz' < length bz
             | (Inr (bz, c), Inl (bz', c')) \<Rightarrow> length bz' < length bz
             | (Inl (bz, c), Inl (bz', c')) \<Rightarrow> False))"
proof (intro conjI allI impI)
  have "{(callee, caller). calls caller callee} \<subseteq> measure call_size"
    using calls_decrease by auto
  then show "wf {(callee, caller). calls caller callee}"
    by (rule wf_subset [OF wf_measure])
next
  fix caller callee
  assume "calls caller callee"
  from calls_decrease [OF this]
  show "call_size callee < call_size caller"
    and "case (caller, callee) of
               (Inl (bz, c), Inr (bz', c')) \<Rightarrow> bz' = bz \<and> bz \<noteq> []
             | (Inr (bz, c), Inr (bz', c')) \<Rightarrow> length bz' < length bz
             | (Inr (bz, c), Inl (bz', c')) \<Rightarrow> length bz' < length bz
             | (Inl (bz, c), Inl (bz', c')) \<Rightarrow> False"
    by simp_all
qed

theorem every_call_terminates_witness:
  "calls (Inr ([0x80, 0x40, 0x01, 0x10, 0x01], example_desc, True, test_resolver, False))
         (Inr ([0x10, 0x01], example_desc, True, test_resolver, True))
   \<and> call_size (Inr ([0x10, 0x01], example_desc, True, test_resolver, True)) <
       call_size (Inr ([0x80, 0x40, 0x01, 0x10, 0x01], example_desc, True, test_resolver, False))
   \<and> length [0x10, 0x01 :: byte] < length [0x80, 0x40, 0x01, 0x10, 0x01 :: byte]"
proof -
  have tag: "ConsumeTag [0x80, 0x40, 0x01, 0x10, 0x01] = Inr (1024, 0, 2)" by code_simp
  have unknown: "ByNumber (msg_Fields example_desc) 1024 = None" by code_simp
  have val: "ConsumeFieldValue 1024 0 (drop 2 [0x80, 0x40, 0x01, 0x10, 0x01]) = Inr 1"
    by code_simp
  have crit: "False = ((1024 :: Number) AND bit11NonCritical = 0)"
    by (simp add: bit11NonCritical_1024)
  have flag: "True = (if (None :: FieldDescriptor option) = None \<and> \<not> False then True else False)"
    by simp
  have allowed: "\<not> ((None :: FieldDescriptor option) = None \<and> (False \<or> \<not> True))"
    by simp
  have c: "calls (Inr ([0x80, 0x40, 0x01, 0x10, 0x01], example_desc, True, test_resolver, False))
         (Inr ([0x10, 0x01], example_desc, True, test_resolver, True))"
    unfolding calls_def
  proof (rule RejectUnknownFields_RejectUnknownFields_loop_rel.intros(2)
      [OF _ tag refl refl unknown [symmetric] crit flag allowed val refl _ refl])
    show "\<not> \<not> 0 < length [0x80, 0x40, 0x01, 0x10, 0x01 :: byte]" by simp
    show "[0x10, 0x01] = drop 1 (drop 2 [0x80, 0x40, 0x01, 0x10, 0x01 :: byte])" by simp
  qed
  from every_call_terminates c
  have "call_size (Inr ([0x10, 0x01], example_desc, True, test_resolver, True)) <
      call_size (Inr ([0x80, 0x40, 0x01, 0x10, 0x01], example_desc, True, test_resolver, False))"
    by blast
  with c show ?thesis by simp
qed

section \<open>Sign bytes\<close>

text \<open>
  C6. Let the body bytes be valid, the body be without extension options and the signer
  address be non-empty. If a tip is present and its tipper is the signer, the sign bytes
  are those of the document whose fee has no amount, gas zero and no payer or granter,
  whatever the declared fee is, also when it is absent. If no tip is present, or the tipper
  is another non-empty address, and a fee is declared, the document's fee is that fee:
  amount, gas limit, payer and granter.
\<close>

theorem tipper_signs_placeholder_fee:
  assumes "snd (RejectUnknownFields (BodyBytes txData) d False (fileResolver h)) = None"
    and "Body txData = Some body"
    and "ExtensionOptions body = []" and "NonCriticalExtensionOptions body = []"
    and "Address signerData \<noteq> ''''"
    and "AuthInfo txData = Some authInfo"
  shows "(\<forall>tip. Tip authInfo = Some tip \<and> Tipper tip = Address signerData \<longrightarrow>
            GetSignBytes json h d signerData txData =
              marshal_sorted json h
                \<lparr>doc_AccountNumber = AccountNumber signerData,
                 doc_TimeoutHeight = TimeoutHeight body,
                 doc_ChainId = ChainId signerData,
                 doc_Sequence = Sequence signerData,
                 doc_Memo = Memo body,
                 doc_Msgs = Messages body,
                 doc_Fee = \<lparr>fee_Amount = [], fee_Gas = 0, fee_Payer = '''', fee_Granter = ''''\<rparr>\<rparr>)
    \<and> (\<forall>f. (\<forall>tip. Tip authInfo = Some tip \<longrightarrow>
                 Tipper tip \<noteq> '''' \<and> Tipper tip \<noteq> Address signerData)
             \<and> Fee authInfo = Some f \<longrightarrow>
            GetSignBytes json h d signerData txData =
              marshal_sorted json h
                \<lparr>doc_AccountNumber = AccountNumber signerData,
                 doc_TimeoutHeight = TimeoutHeight body,
                 doc_ChainId = ChainId signerData,
                 doc_Sequence = Sequence signerData,
                 doc_Memo = Memo body,
                 doc_Msgs = Messages body,
                 doc_Fee = \<lparr>fee_Amount = Amount f, fee_Gas = GasLimit f,
                            fee_Payer = Payer f, fee_Granter = Granter f\<rparr>\<rparr>)"
  using assms
  by (auto simp add: GetSignBytes_def Let_def split: option.splits)

theorem tipper_signs_placeholder_fee_witness:
  "snd (RejectUnknownFields (BodyBytes tipped_tx) TxBody_Descriptor False
        (fileResolver test_handler)) = None
   \<and> Body tipped_tx = Some test_body
   \<and> ExtensionOptions test_body = [] \<and> NonCriticalExtensionOptions test_body = []
   \<and> Address alice \<noteq> [] \<and> Address bob \<noteq> []
   \<and> AuthInfo tipped_tx = Some \<lparr>Fee = Some test_fee, Tip = Some test_tip\<rparr>
   \<and> GetSignBytes test_json test_handler TxBody_Descriptor alice tipped_tx = Inr [0, 0]
   \<and> GetSignBytes test_json test_handler TxBody_Descriptor alice feeless_tx = Inr [0, 0]
   \<and> GetSignBytes test_json test_handler TxBody_Descriptor bob tipped_tx = Inr [64, 1]"
proof -
  have valid: "snd (RejectUnknownFields (BodyBytes tipped_tx) TxBody_Descriptor False
      (fileResolver test_handler)) = None"
    by code_simp
  have valid': "snd (RejectUnknownFields (BodyBytes feeless_tx) TxBody_Descriptor False
      (fileResolver test_handler)) = None"
    by code_simp
  have body: "Body tipped_tx = Some test_body" "Body feeless_tx = Some test_body"
    by (simp_all add: tipped_tx_def feeless_tx_def)
  have none: "ExtensionOptions test_body = []" "NonCriticalExtensionOptions test_body = []"
    by (simp_all add: test_body_def)
  have signer: "Address alice \<noteq> []" "Address bob \<noteq> []"
    by (simp_all add: alice_def bob_def)
  have auth: "AuthInfo tipped_tx = Some \<lparr>Fee = Some test_fee, Tip = Some test_tip\<rparr>"
    "AuthInfo feeless_tx = Some \<lparr>Fee = None, Tip = Some test_tip\<rparr>"
    by (simp_all add: tipped_tx_def feeless_tx_def)
  have tipper: "Tipper test_tip = Address alice" "Tipper test_tip \<noteq> []"
    "Tipper test_tip \<noteq> Address bob"
    by (simp_all add: test_tip_def alice_def bob_def)
  have a: "GetSignBytes test_json test_handler TxBody_Descriptor alice tipped_tx =
      marshal_sorted test_json test_handler
        \<lparr>doc_AccountNumber = AccountNumber alice, doc_TimeoutHeight = TimeoutHeight test_body,
         doc_ChainId = ChainId alice, doc_Sequence = Sequence alice, doc_Memo = Memo test_body,
         doc_Msgs = Messages test_body,
         doc_Fee = \<lparr>fee_Amount = [], fee_Gas = 0, fee_Payer = [], fee_Granter = []\<rparr>\<rparr>"
    using tipper_signs_placeholder_fee
      [OF valid body(1) none signer(1) auth(1), of test_json] tipper
    by simp
  have a': "GetSignBytes test_json test_handler TxBody_Descriptor alice feeless_tx =
      marshal_sorted test_json test_handler
        \<lparr>doc_AccountNumber = AccountNumber alice, doc_TimeoutHeight = TimeoutHeight test_body,
         doc_ChainId = ChainId alice, doc_Sequence = Sequence alice, doc_Memo = Memo test_body,
         doc_Msgs = Messages test_body,
         doc_Fee = \<lparr>fee_Amount = [], fee_Gas = 0, fee_Payer = [], fee_Granter = []\<rparr>\<rparr>"
    using tipper_signs_placeholder_fee
      [OF valid' body(2) none signer(1) auth(2), of test_json] tipper
    by simp
  have b: "GetSignBytes test_json test_handler TxBody_Descriptor bob tipped_tx =
      marshal_sorted test_json test_handler
        \<lparr>doc_AccountNumber = AccountNumber bob, doc_TimeoutHeight = TimeoutHeight test_body,
         doc_ChainId = ChainId bob, doc_Sequence = Sequence bob, doc_Memo = Memo test_body,
         doc_Msgs = Messages test_body,
         doc_Fee = \<lparr>fee_Amount = Amount test_fee, fee_Gas = GasLimit test_fee,
                    fee_Payer = Payer test_fee, fee_Granter = Granter test_fee\<rparr>\<rparr>"
    using tipper_signs_placeholder_fee
      [OF valid body(1) none signer(2) auth(1), of test_json] tipper
    by simp
  have placeholder: "marshal_sorted test_json test_handler
        \<lparr>doc_AccountNumber = AccountNumber alice, doc_TimeoutHeight = TimeoutHeight test_body,
         doc_ChainId = ChainId alice, doc_Sequence = Sequence alice, doc_Memo = Memo test_body,
         doc_Msgs = Messages test_body,
         doc_Fee = \<lparr>fee_Amount = [], fee_Gas = 0, fee_Payer = [], fee_Granter = []\<rparr>\<rparr> =
      Inr [0, 0]"
    by code_simp
  have copied: "marshal_sorted test_json test_handler
        \<lparr>doc_AccountNumber = AccountNumber bob, doc_TimeoutHeight = TimeoutHeight test_body,
         doc_ChainId = ChainId bob, doc_Sequence = Sequence bob, doc_Memo = Memo test_body,
         doc_Msgs = Messages test_body,
         doc_Fee = \<lparr>fee_Amount = Amount test_fee, fee_Gas = GasLimit test_fee,
                    fee_Payer = Payer test_fee, fee_Granter = Granter test_fee\<rparr>\<rparr> =
      Inr [64, 1]"
    by code_simp
  show ?thesis
    using valid body(1) none signer auth(1) a a' b placeholder copied by simp
qed

text \<open>
  C7. Let the body bytes be valid and the body be present: these are the inputs of
  \<^verbatim>\<open>GetSignBytes\<close> that reach its checks (on body bytes that the validator rejects it
  returns the validator's error first, and a nil body is dereferenced at line 61). When
  the body has extension options of either kind, when the signer address is empty, when a
  tip is present with an empty tipper, or when the fee is absent while the signer is not the
  tipper, \<^verbatim>\<open>GetSignBytes\<close> returns no sign bytes but an error, the one of the first of the
  four checks, in the order of lines 61 to 85, that the input violates. It is one of the
  four errors of these checks, never a panic.
\<close>

theorem violated_precondition_fails:
  assumes "snd (RejectUnknownFields (BodyBytes txData) d False (fileResolver h)) = None"
    and "Body txData = Some body"
    and "ExtensionOptions body \<noteq> [] \<or> NonCriticalExtensionOptions body \<noteq> []
      \<or> Address signerData = ''''
      \<or> (\<exists>authInfo tip. AuthInfo txData = Some authInfo \<and> Tip authInfo = Some tip \<and>
            Tipper tip = '''')
      \<or> (\<exists>authInfo. AuthInfo txData = Some authInfo \<and> Fee authInfo = None \<and>
            (\<forall>tip. Tip authInfo = Some tip \<longrightarrow> Tipper tip \<noteq> Address signerData))"
  shows "GetSignBytes json h d signerData txData =
     Inl (if ExtensionOptions body \<noteq> [] \<or> NonCriticalExtensionOptions body \<noteq> []
          then ErrExtensionOptions
          else if Address signerData = '''' then ErrEmptyAddress
          else if (\<exists>authInfo tip. AuthInfo txData = Some authInfo \<and>
                     Tip authInfo = Some tip \<and> Tipper tip = '''')
          then ErrEmptyTipper
          else ErrNilFee)"
  using assms
  by (auto simp add: GetSignBytes_def Let_def split: option.splits)

theorem violated_precondition_fails_witness:
  "snd (RejectUnknownFields (BodyBytes extension_tx) TxBody_Descriptor False
        (fileResolver test_handler)) = None
   \<and> snd (RejectUnknownFields (BodyBytes tipped_tx) TxBody_Descriptor False
        (fileResolver test_handler)) = None
   \<and> snd (RejectUnknownFields (BodyBytes empty_tipper_tx) TxBody_Descriptor False
        (fileResolver test_handler)) = None
   \<and> snd (RejectUnknownFields (BodyBytes feeless_tx) TxBody_Descriptor False
        (fileResolver test_handler)) = None
   \<and> Body extension_tx = Some extension_body \<and> ExtensionOptions extension_body \<noteq> []
   \<and> Body tipped_tx = Some test_body \<and> Address nobody = []
   \<and> Body empty_tipper_tx = Some test_body
   \<and> AuthInfo empty_tipper_tx = Some \<lparr>Fee = Some test_fee, Tip = Some nameless_tip\<rparr>
   \<and> Tipper nameless_tip = []
   \<and> Body feeless_tx = Some test_body
   \<and> AuthInfo feeless_tx = Some \<lparr>Fee = None, Tip = Some test_tip\<rparr>
   \<and> Tipper test_tip \<noteq> Address bob
   \<and> GetSignBytes test_json test_handler TxBody_Descriptor alice extension_tx =
       Inl ErrExtensionOptions
   \<and> GetSignBytes test_json test_handler TxBody_Descriptor nobody tipped_tx =
       Inl ErrEmptyAddress
   \<and> GetSignBytes test_json test_handler TxBody_Descriptor alice empty_tipper_tx =
       Inl ErrEmptyTipper
   \<and> GetSignBytes test_json test_handler TxBody_Descriptor bob feeless_tx = Inl ErrNilFee"
proof -
  have valid: "snd (RejectUnknownFields (BodyBytes extension_tx) TxBody_Descriptor False
        (fileResolver test_handler)) = None"
    "snd (RejectUnknownFields (BodyBytes tipped_tx) TxBody_Descriptor False
        (fileResolver test_handler)) = None"
    "snd (RejectUnknownFields (BodyBytes empty_tipper_tx) TxBody_Descriptor False
        (fileResolver test_handler)) = None"
    "snd (RejectUnknownFields (BodyBytes feeless_tx) TxBody_Descriptor False
        (fileResolver test_handler)) = None"
    by code_simp+
  have body: "Body extension_tx = Some extension_body" "Body tipped_tx = Some test_body"
    "Body empty_tipper_tx = Some test_body" "Body feeless_tx = Some test_body"
    by (simp_all add: extension_tx_def tipped_tx_def empty_tipper_tx_def feeless_tx_def)
  have auth: "AuthInfo empty_tipper_tx = Some \<lparr>Fee = Some test_fee, Tip = Some nameless_tip\<rparr>"
    "AuthInfo feeless_tx = Some \<lparr>Fee = None, Tip = Some test_tip\<rparr>"
    by (simp_all add: empty_tipper_tx_def feeless_tx_def)
  have facts: "ExtensionOptions extension_body \<noteq> []" "Address nobody = []"
    "Tipper nameless_tip = []" "Tipper test_tip \<noteq> Address bob"
    "ExtensionOptions test_body = []" "NonCriticalExtensionOptions test_body = []"
    "Address alice \<noteq> []" "Address bob \<noteq> []" "Tipper test_tip \<noteq> []"
    by (simp_all add: extension_body_def nobody_def nameless_tip_def test_tip_def bob_def
        alice_def test_body_def)
  have "GetSignBytes test_json test_handler TxBody_Descriptor alice extension_tx =
      Inl ErrExtensionOptions"
    using violated_precondition_fails [OF valid(1) body(1), of alice test_json] facts
    by simp
  moreover
  have "GetSignBytes test_json test_handler TxBody_Descriptor nobody tipped_tx =
      Inl ErrEmptyAddress"
    using violated_precondition_fails [OF valid(2) body(2), of nobody test_json] facts
    by simp
  moreover
  have "GetSignBytes test_json test_handler TxBody_Descriptor alice empty_tipper_tx =
      Inl ErrEmptyTipper"
    using violated_precondition_fails [OF valid(3) body(3), of alice test_json] facts auth
    by simp
  moreover
  have "GetSignBytes test_json test_handler TxBody_Descriptor bob feeless_tx = Inl ErrNilFee"
    using violated_precondition_fails [OF valid(4) body(4), of bob test_json] facts auth
    by simp
  ultimately show ?thesis
    using valid body auth facts by simp
qed

section \<open>Canonicalization\<close>

text \<open>
  C8. \<open>sortJSON\<close> is idempotent, for every JSON library that decodes what it has encoded
  (\<open>json_round_trip\<close>): sorting the output of \<open>sortJSON\<close> again gives that output
  again, byte for byte. An input that is not valid JSON gives an error, and then there is
  nothing to sort again.
\<close>

theorem sortJSON_idempotent:
  assumes "json_round_trip json"
  shows "(case sortJSON json x of Inl err \<Rightarrow> Inl err | Inr y \<Rightarrow> sortJSON json y) =
     sortJSON json x"
proof (cases "json_Unmarshal json x")
  case (Inl err)
  then show ?thesis by (simp add: sortJSON_def)
next
  case c: (Inr c)
  show ?thesis
  proof (cases "json_Marshal json c")
    case (Inl err)
    with c show ?thesis by (simp add: sortJSON_def)
  next
    case (Inr js)
    from assms c Inr have "json_Unmarshal json js = Inr c"
      unfolding json_round_trip_def by blast
    with c Inr show ?thesis by (simp add: sortJSON_def)
  qed
qed

theorem sortJSON_idempotent_witness:
  "json_round_trip flat_json
   \<and> sortJSON flat_json
        [0x7b, 0x22, 0x62, 0x22, 0x3a, 0x22, 0x31, 0x22, 0x2c,
               0x22, 0x61, 0x22, 0x3a, 0x22, 0x32, 0x22, 0x7d] =
       Inr [0x7b, 0x22, 0x61, 0x22, 0x3a, 0x22, 0x32, 0x22, 0x2c,
                  0x22, 0x62, 0x22, 0x3a, 0x22, 0x31, 0x22, 0x7d]
   \<and> sortJSON flat_json
        [0x7b, 0x22, 0x61, 0x22, 0x3a, 0x22, 0x32, 0x22, 0x2c,
               0x22, 0x62, 0x22, 0x3a, 0x22, 0x31, 0x22, 0x7d] =
       Inr [0x7b, 0x22, 0x61, 0x22, 0x3a, 0x22, 0x32, 0x22, 0x2c,
                  0x22, 0x62, 0x22, 0x3a, 0x22, 0x31, 0x22, 0x7d]"
proof -
  have first: "sortJSON flat_json
        [0x7b, 0x22, 0x62, 0x22, 0x3a, 0x22, 0x31, 0x22, 0x2c,
               0x22, 0x61, 0x22, 0x3a, 0x22, 0x32, 0x22, 0x7d] =
       Inr [0x7b, 0x22, 0x61, 0x22, 0x3a, 0x22, 0x32, 0x22, 0x2c,
                  0x22, 0x62, 0x22, 0x3a, 0x22, 0x31, 0x22, 0x7d]"
    by code_simp
  from sortJSON_idempotent [OF flat_json_round_trip, of
        "[0x7b, 0x22, 0x62, 0x22, 0x3a, 0x22, 0x31, 0x22, 0x2c,
               0x22, 0x61, 0x22, 0x3a, 0x22, 0x32, 0x22, 0x7d]"]
    first flat_json_round_trip
  show ?thesis by simp
qed


end
